theory Spec2Isabelle
  imports Main "HOL-Library.AList" "HOL-Library.Char_ord" "HOL-Library.List_Lexorder"
begin

section \<open>JavaScript values used by the converter\<close>

text \<open>
  Strings are lists of code units (restricted to the 8-bit range of \<open>char\<close>); the default
  \<open>Array.prototype.sort\<close> compares strings code unit by code unit, which is the lexicographic
  order on \<open>char list\<close>. The label of the empty subset, the one-code-unit string U+00D8,
  is \<open>OSLASH\<close>.
\<close>

definition OSLASH :: string where
  "OSLASH = [CHR 0xD8]"

text \<open>\<open>Array.prototype.join(',')\<close> on an array of strings.\<close>

fun join_comma :: "string list \<Rightarrow> string" where
  "join_comma [] = []"
| "join_comma [x] = x"
| "join_comma (x # y # ys) = x @ CHR '','' # join_comma (y # ys)"

text \<open>\<open>String.prototype.split(',')\<close>; the empty string splits into one empty string.\<close>

fun split_comma :: "string \<Rightarrow> string list" where
  "split_comma [] = [[]]"
| "split_comma (c # cs) =
     (if c = CHR '','' then [] # split_comma cs
      else (case split_comma cs of [] \<Rightarrow> [[c]] | w # ws \<Rightarrow> (c # w) # ws))"

text \<open>\<open>[...new Set(xs)]\<close>: the distinct elements in order of first occurrence.\<close>

function set_spread :: "'a list \<Rightarrow> 'a list" where
  "set_spread [] = []"
| "set_spread (x # xs) = x # set_spread (removeAll x xs)"
  by pat_completeness auto
termination
  by (relation "measure length") (simp_all add: less_Suc_eq_le)

text \<open>An array read \<open>xs[i]\<close>; \<open>None\<close> is \<open>undefined\<close>.\<close>

definition nth_opt :: "'a list \<Rightarrow> nat \<Rightarrow> 'a option" where
  "nth_opt xs i = (if i < length xs then Some (xs ! i) else None)"

text \<open>A value used as a property key is converted to a string.\<close>

definition jskey :: "string option \<Rightarrow> string" where
  "jskey v = (case v of None \<Rightarrow> ''undefined'' | Some s \<Rightarrow> s)"

text \<open>
  \<open>TypeError\<close>: a property of \<open>undefined\<close> is read or written. \<open>StartStateError\<close>: the
  \<open>Error\<close> thrown by \<open>initializeDFA\<close>. \<open>OutOfModel\<close> marks the calls of the three step
  methods on arguments that \<open>stepForward\<close> never passes (an index past the end of
  \<open>states\<close>, an empty queue), which the model does not follow. A raised exception ends
  the run: the session it leaves behind is not modelled.
\<close>

datatype error = TypeError | StartStateError | OutOfModel

section \<open>The automaton\<close>

text \<open>
  An object is an association list of its own properties; a property holding
  \<open>undefined\<close> is \<open>(k, None)\<close>. The converter only reads properties by key, so it never
  observes the order of the keys.
\<close>

type_synonym row = "(string \<times> string list option) list"

record FSA =
  states :: "string list"
  alphabet :: "string list"
  transitions :: "(string \<times> row) list"
  startState :: string
  acceptStates :: "string list"

text \<open>
  The NFA is an automaton together with the answers of its three queries, which are
  parameters of the model: the converter relies on nothing but their results.
  \<open>getReachableStates\<close> receives the symbol as read from the alphabet array, which is
  \<open>undefined\<close> when \<open>alphabet_index\<close> is past its end.
\<close>

record NFA = FSA +
  getPowersetOfStates :: "string list list"
  getEpsilonClosureStates :: "string \<Rightarrow> string list"
  getReachableStates :: "string \<Rightarrow> string option \<Rightarrow> string list"

text \<open>Modelled from the spec: \<open>FSA.clone\<close>, an independent deep copy. Values are not
  shared in HOL, so the copy is the value itself.\<close>

definition clone :: "FSA \<Rightarrow> FSA" where
  "clone d = d"

text \<open>Modelled from the spec: \<open>FSA.removeState\<close> removes the state from the state
  sequence and from the accept states and drops its transition row; the transitions of
  the other states are not rewritten.\<close>

definition removeState :: "FSA \<Rightarrow> string \<Rightarrow> FSA" where
  "removeState d label =
     d\<lparr>states := removeAll label (states d),
       acceptStates := removeAll label (acceptStates d),
       transitions := AList.delete label (transitions d)\<rparr>"

text \<open>Modelled from the spec: \<open>FSA.mergeStates\<close> collapses the two states into one
  representative, here the first; every transition that pointed to either state points
  to the representative, and the representative is an accept state iff either state
  was. The second state leaves the state sequence with its row; a start state that was
  the second state becomes the representative.\<close>

definition redirect :: "string \<Rightarrow> string \<Rightarrow> string \<Rightarrow> string" where
  "redirect a b t = (if t = b then a else t)"

definition mergeStates :: "FSA \<Rightarrow> string \<Rightarrow> string \<Rightarrow> FSA" where
  "mergeStates d a b =
     d\<lparr>states := removeAll b (states d),
       acceptStates :=
         (if b \<in> set (acceptStates d) \<and> a \<notin> set (acceptStates d)
          then map (redirect a b) (acceptStates d)
          else removeAll b (acceptStates d)),
       startState := redirect a b (startState d),
       transitions :=
         map (\<lambda>(k, r). (k, map (\<lambda>(symbol, v). (symbol, map_option (map (redirect a b)) v)) r))
           (AList.delete b (transitions d))\<rparr>"

text \<open>The read \<open>transitions[state][symbol]\<close>: a \<open>TypeError\<close> when the row is
  \<open>undefined\<close>, otherwise the entry, which may be \<open>undefined\<close>.\<close>

definition get_transition :: "FSA \<Rightarrow> string \<Rightarrow> string \<Rightarrow> error + string list option" where
  "get_transition d state symbol =
     (case map_of (transitions d) state of
        None \<Rightarrow> Inl TypeError
      | Some r \<Rightarrow> Inr (case map_of r symbol of None \<Rightarrow> None | Some v \<Rightarrow> v))"

text \<open>The write \<open>transitions[state][symbol] = v\<close>.\<close>

definition set_transition :: "FSA \<Rightarrow> string \<Rightarrow> string \<Rightarrow> string list \<Rightarrow> error + FSA" where
  "set_transition d state symbol v =
     (case map_of (transitions d) state of
        None \<Rightarrow> Inl TypeError
      | Some r \<Rightarrow>
          Inr (d\<lparr>transitions := AList.update state (AList.update symbol (Some v) r) (transitions d)\<rparr>))"

section \<open>The conversion session\<close>

datatype step_kind = initialize | add_transition | delete_state | merge_states

text \<open>
  The step descriptor, without its display text \<open>desc\<close>. \<open>AddTransition\<close> carries
  \<open>fromState\<close>, \<open>toState\<close>, \<open>symbol\<close>, \<open>prevStateIndex\<close> and \<open>prevAlphabetIndex\<close>;
  \<open>DeleteState\<close> carries \<open>state\<close> and the copy of its row \<open>transitions\<close>;
  \<open>MergeStates\<close> carries the pair \<open>states\<close>.
\<close>

datatype step =
    Initialize
  | AddTransition string string "string option" nat nat
  | DeleteState string "row option"
  | MergeStates "string \<times> string"

fun step_type :: "step \<Rightarrow> step_kind" where
  "step_type Initialize = initialize"
| "step_type (AddTransition f t s i j) = add_transition"
| "step_type (DeleteState s r) = delete_state"
| "step_type (MergeStates p) = merge_states"

record NFAConverter =
  nfa :: NFA
  dfa :: "FSA option"
  steps :: "(FSA \<times> step) list"
  state_index :: nat
  alphabet_index :: nat
  unreachableStates :: "string list option"
  redundantStates :: "(string \<times> string) list option"

text \<open>The constructor.\<close>

definition new_NFAConverter :: "NFA \<Rightarrow> NFAConverter" where
  "new_NFAConverter n =
     \<lparr>nfa = n, dfa = None, steps = [], state_index = 0, alphabet_index = 0,
      unreachableStates = None, redundantStates = None\<rparr>"

subsection \<open>The unreachable-state search\<close>

text \<open>The inner loop over the alphabet, for one state; \<open>acc\<close> is
  \<open>nodesWithIncomingEdges\<close>.\<close>

fun incoming_symbols :: "FSA \<Rightarrow> string \<Rightarrow> string list \<Rightarrow> string list \<Rightarrow> error + string list" where
  "incoming_symbols d st [] acc = Inr acc"
| "incoming_symbols d st (symbol # syms) acc =
     (case get_transition d st symbol of
        Inl e \<Rightarrow> Inl e
      | Inr None \<Rightarrow> Inl TypeError
      | Inr (Some v) \<Rightarrow>
          (let node = join_comma v
           in incoming_symbols d st syms (if node \<noteq> st then acc @ [node] else acc)))"

text \<open>The outer loop over the states.\<close>

fun incoming_states :: "FSA \<Rightarrow> string list \<Rightarrow> string list \<Rightarrow> error + string list" where
  "incoming_states d [] acc = Inr acc"
| "incoming_states d (st # sts) acc =
     (case incoming_symbols d st (alphabet d) acc of
        Inl e \<Rightarrow> Inl e
      | Inr acc' \<Rightarrow> incoming_states d sts acc')"

definition nodesWithIncomingEdges :: "FSA \<Rightarrow> error + string list" where
  "nodesWithIncomingEdges d = incoming_states d (states d) []"

definition nodesWithoutIncomingEdges :: "FSA \<Rightarrow> string list \<Rightarrow> string list" where
  "nodesWithoutIncomingEdges d inc =
     filter (\<lambda>s. s \<notin> set inc \<and> s \<noteq> startState d) (states d)"

function getUnreachableStates_rec :: "FSA \<Rightarrow> string list \<Rightarrow> error + string list" where
  "getUnreachableStates_rec tempDFA list =
     (case nodesWithIncomingEdges tempDFA of
        Inl e \<Rightarrow> Inl e
      | Inr inc \<Rightarrow>
          (if nodesWithoutIncomingEdges tempDFA inc \<noteq> [] then
             (case getUnreachableStates_rec
                     (fold (\<lambda>n d. removeState d n) (nodesWithoutIncomingEdges tempDFA inc) tempDFA)
                     (list @ nodesWithoutIncomingEdges tempDFA inc) of
                Inl e \<Rightarrow> Inl e
              | Inr l \<Rightarrow> Inr (set_spread l))
           else Inr (set_spread list)))"
  by pat_completeness auto
termination
proof (relation "measure (\<lambda>(d, l). length (states d))")
  show "wf (measure (\<lambda>(d, l). length (states d)))" by simp
next
  fix tempDFA :: FSA and list :: "string list" and inc :: "string list"
  let ?ns = "nodesWithoutIncomingEdges tempDFA inc"
  assume nonempty: "?ns \<noteq> []"
  have le: "length (states (fold (\<lambda>n d. removeState d n) ns d)) \<le> length (states d)"
    for ns and d :: FSA
  proof (induction ns arbitrary: d)
    case Nil
    show ?case by simp
  next
    case (Cons n ns)
    have "length (states (removeState d n)) \<le> length (states d)"
      by (simp add: removeState_def)
    with Cons [of "removeState d n"] show ?case by simp
  qed
  have less: "x \<in> set xs \<Longrightarrow> length (removeAll x xs) < length xs" for x :: string and xs
    by (induction xs) (auto simp: less_Suc_eq_le)
  obtain n ms where ns: "?ns = n # ms"
    using nonempty by (cases ?ns) auto
  then have "n \<in> set ?ns" by simp
  then have "n \<in> set (states tempDFA)"
    by (simp add: nodesWithoutIncomingEdges_def)
  then have "length (states (removeState tempDFA n)) < length (states tempDFA)"
    by (simp add: removeState_def less)
  moreover have "length (states (fold (\<lambda>n d. removeState d n) ms (removeState tempDFA n)))
      \<le> length (states (removeState tempDFA n))"
    by (rule le)
  ultimately show "((fold (\<lambda>n d. removeState d n) ?ns tempDFA, list @ ?ns), tempDFA, list)
      \<in> measure (\<lambda>(d, l). length (states d))"
    using ns by simp
qed

declare getUnreachableStates_rec.simps [simp del]

definition getUnreachableStates :: "NFAConverter \<Rightarrow> error + string list" where
  "getUnreachableStates c =
     (case dfa c of
        None \<Rightarrow> Inl TypeError
      | Some d \<Rightarrow> getUnreachableStates_rec (clone d) [])"

subsection \<open>The redundant-pair search\<close>

text \<open>
  The loop over the alphabet for the pair \<open>(s1, s2)\<close>; \<open>redundant\<close> is the flag of the
  source. The condition \<open>(A && B) || (C && D)\<close> is evaluated left to right: the row of
  \<open>s2\<close> is read only when the target of \<open>s1\<close> is one of the two states.
\<close>

fun redundant_symbols :: "FSA \<Rightarrow> string \<Rightarrow> string \<Rightarrow> string list \<Rightarrow> bool \<Rightarrow> error + bool" where
  "redundant_symbols d s1 s2 [] redundant = Inr redundant"
| "redundant_symbols d s1 s2 (symbol # syms) redundant =
     (case get_transition d s1 symbol of
        Inl e \<Rightarrow> Inl e
      | Inr None \<Rightarrow> Inl TypeError
      | Inr (Some t1) \<Rightarrow>
          (if nth_opt t1 0 \<noteq> Some s1 \<and> nth_opt t1 0 \<noteq> Some s2
           then redundant_symbols d s1 s2 syms False
           else
             (case get_transition d s2 symbol of
                Inl e \<Rightarrow> Inl e
              | Inr None \<Rightarrow> Inl TypeError
              | Inr (Some t2) \<Rightarrow>
                  (if nth_opt t2 0 \<noteq> Some s2 \<and> nth_opt t2 0 \<noteq> Some s1
                   then redundant_symbols d s1 s2 syms False
                   else redundant_symbols d s1 s2 syms redundant))))"

text \<open>The inner loop over \<open>s2\<close>: the first redundant partner of \<open>s1\<close>, if any.\<close>

fun scan_s2 :: "FSA \<Rightarrow> string \<Rightarrow> string list \<Rightarrow> error + (string \<times> string) option" where
  "scan_s2 d s1 [] = Inr None"
| "scan_s2 d s1 (s2 # rest) =
     (if (s1 \<in> set (acceptStates d) \<and> s2 \<in> set (acceptStates d)) \<or>
         (s1 \<notin> set (acceptStates d) \<and> s2 \<notin> set (acceptStates d))
      then
        (case redundant_symbols d s1 s2 (alphabet d) True of
           Inl e \<Rightarrow> Inl e
         | Inr redundant \<Rightarrow> if redundant then Inr (Some (s1, s2)) else scan_s2 d s1 rest)
      else scan_s2 d s1 rest)"

text \<open>The outer loop over \<open>s1\<close>.\<close>

fun scan_s1 :: "FSA \<Rightarrow> string list \<Rightarrow> error + (string \<times> string) option" where
  "scan_s1 d [] = Inr None"
| "scan_s1 d (s1 # rest) =
     (case scan_s2 d s1 (filter (\<lambda>e. e \<noteq> s1) (states d)) of
        Inl e \<Rightarrow> Inl e
      | Inr (Some p) \<Rightarrow> Inr (Some p)
      | Inr None \<Rightarrow> scan_s1 d rest)"

function getRedundantStates_rec ::
  "FSA \<Rightarrow> (string \<times> string) list \<Rightarrow> error + (string \<times> string) list" where
  "getRedundantStates_rec tempDFA list =
     (case scan_s1 tempDFA (states tempDFA) of
        Inl e \<Rightarrow> Inl e
      | Inr None \<Rightarrow> Inr list
      | Inr (Some (s1, s2)) \<Rightarrow>
          getRedundantStates_rec (mergeStates tempDFA s1 s2) (list @ [(s1, s2)]))"
  by pat_completeness auto
termination
proof (relation "measure (\<lambda>(d, l). length (states d))", goal_cases)
  case 1
  show ?case by simp
next
  case (2 tempDFA list b p s1 s2)
  have inner: "scan_s2 d a bs = Inr (Some (x, y)) \<Longrightarrow> y \<in> set bs" for d a bs x y
    by (induction bs) (auto split: if_splits sum.splits)
  have outer: "scan_s1 d as = Inr (Some (x, y)) \<Longrightarrow> y \<in> set (states d)" for d as x y
  proof (induction as)
    case Nil
    then show ?case by simp
  next
    case (Cons a as)
    then show ?case
      using inner [of d a "filter (\<lambda>e. e \<noteq> a) (states d)" x y]
      by (auto split: sum.splits option.splits)
  qed
  have less: "x \<in> set xs \<Longrightarrow> length (removeAll x xs) < length xs" for x :: string and xs
    by (induction xs) (auto simp: less_Suc_eq_le)
  from 2 have "s2 \<in> set (states tempDFA)"
    using outer [of tempDFA "states tempDFA" s1 s2] by simp
  then show ?case
    by (simp add: mergeStates_def less)
qed

declare getRedundantStates_rec.simps [simp del]

definition getRedundantStates :: "NFAConverter \<Rightarrow> error + (string \<times> string) list" where
  "getRedundantStates c =
     (case dfa c of
        None \<Rightarrow> Inl TypeError
      | Some d \<Rightarrow> getRedundantStates_rec (clone d) [])"

subsection \<open>The next step\<close>

text \<open>
  \<open>getNextStep\<close> returns the kind of the next step, \<open>None\<close> for the \<open>undefined\<close> it
  returns when nothing is left to do, together with the session, whose queues it
  fills on first use (an empty array is truthy, so a computed queue is never computed
  again).
\<close>

definition getNextStep :: "NFAConverter \<Rightarrow> error + (NFAConverter \<times> step_kind option)" where
  "getNextStep c =
     (case dfa c of
        None \<Rightarrow> Inr (c, Some initialize)
      | Some d \<Rightarrow>
          if state_index c < length (states d) then Inr (c, Some add_transition)
          else
            (case (case unreachableStates c of None \<Rightarrow> getUnreachableStates c | Some q \<Rightarrow> Inr q) of
               Inl e \<Rightarrow> Inl e
             | Inr u \<Rightarrow>
                 (let c1 = c\<lparr>unreachableStates := Some u\<rparr>
                  in if length u > 0 then Inr (c1, Some delete_state)
                     else
                       (case (case redundantStates c1 of
                                None \<Rightarrow> getRedundantStates c1 | Some q \<Rightarrow> Inr q) of
                          Inl e \<Rightarrow> Inl e
                        | Inr r \<Rightarrow>
                            (let c2 = c1\<lparr>redundantStates := Some r\<rparr>
                             in if length r > 0 then Inr (c2, Some merge_states)
                                else Inr (c2, None))))))"

subsection \<open>The four steps\<close>

text \<open>Modelled from the spec: the constructor of FSA, which stores the five attributes of
  the automaton as they are given.\<close>

definition new_FSA ::
  "string list \<Rightarrow> string list \<Rightarrow> (string \<times> row) list \<Rightarrow> string \<Rightarrow> string list \<Rightarrow> FSA" where
  "new_FSA sts alph tr start acc =
     \<lparr>states = sts, alphabet = alph, transitions = tr, startState = start,
      acceptStates = acc\<rparr>"

text \<open>The empty map of transitions: a row per state, \<open>undefined\<close> for every symbol.\<close>

definition empty_transitions :: "string list \<Rightarrow> string list \<Rightarrow> (string \<times> row) list" where
  "empty_transitions sts alph =
     fold (\<lambda>s t. AList.update s (fold (\<lambda>e r. AList.update e None r) alph []) t) sts []"

definition initializeDFA :: "NFAConverter \<Rightarrow> error + (NFAConverter \<times> (FSA \<times> step) option)" where
  "initializeDFA c =
     (let powerset = getPowersetOfStates (nfa c);
          sts = map join_comma powerset;
          tr = empty_transitions sts (alphabet (nfa c));
          start = join_comma
                    (sort (set_spread (getEpsilonClosureStates (nfa c) (startState (nfa c)))));
          acc = map join_comma
                  (filter (\<lambda>e. \<exists>s \<in> set (acceptStates (nfa c)). s \<in> set e) powerset)
      in if start \<notin> set sts then Inl StartStateError
         else
           (let d = new_FSA sts (alphabet (nfa c)) tr start acc;
                entry = (clone d, Initialize)
            in Inr (c\<lparr>dfa := Some d, steps := steps c @ [entry]\<rparr>, Some entry)))"

text \<open>The local \<open>reachableStates\<close> of \<open>addNextTransition\<close>, for a state that is not at
  index 0.\<close>

definition reachableStates :: "NFA \<Rightarrow> string \<Rightarrow> string option \<Rightarrow> string list" where
  "reachableStates n st symbol =
     (let r = fold (\<lambda>s acc. acc @ getReachableStates n s symbol) (split_comma st) [];
          r = sort (set_spread r)
      in if \<exists>e \<in> set r. e \<noteq> OSLASH then filter (\<lambda>e. e \<noteq> OSLASH) r else [OSLASH])"

definition addNextTransition ::
  "NFAConverter \<Rightarrow> nat \<Rightarrow> nat \<Rightarrow> error + (NFAConverter \<times> (FSA \<times> step) option)" where
  "addNextTransition c prevStateIndex prevAlphabetIndex =
     (case dfa c of
        None \<Rightarrow> Inl TypeError
      | Some d \<Rightarrow>
          (case nth_opt (states d) (state_index c) of
             None \<Rightarrow> if state_index c = 0 then Inl OutOfModel else Inl TypeError
           | Some st \<Rightarrow>
               (let symbol = nth_opt (alphabet d) (alphabet_index c)
                in case (if state_index c = 0
                         then set_transition d OSLASH (jskey symbol) [OSLASH]
                         else set_transition d st (jskey symbol)
                                [join_comma (reachableStates (nfa c) st symbol)]) of
                     Inl e \<Rightarrow> Inl e
                   | Inr d' \<Rightarrow>
                       (case get_transition d' st (jskey symbol) of
                          Inl e \<Rightarrow> Inl e
                        | Inr None \<Rightarrow> Inl TypeError
                        | Inr (Some v) \<Rightarrow>
                            (let entry = (clone d',
                                   AddTransition st (join_comma v) symbol
                                     prevStateIndex prevAlphabetIndex)
                             in Inr (c\<lparr>dfa := Some d',
                                       alphabet_index := alphabet_index c + 1,
                                       steps := steps c @ [entry]\<rparr>, Some entry))))))"

definition deleteNextUnreachableState ::
  "NFAConverter \<Rightarrow> error + (NFAConverter \<times> (FSA \<times> step) option)" where
  "deleteNextUnreachableState c =
     (case unreachableStates c of
        None \<Rightarrow> Inl TypeError
      | Some [] \<Rightarrow> Inl OutOfModel
      | Some (stateToDelete # rest) \<Rightarrow>
          (case dfa c of
             None \<Rightarrow> Inl TypeError
           | Some d \<Rightarrow>
               (let entry = (clone d,
                      DeleteState stateToDelete (map_of (transitions d) stateToDelete))
                in Inr (c\<lparr>unreachableStates := Some rest,
                          steps := steps c @ [entry],
                          dfa := Some (removeState d stateToDelete)\<rparr>, Some entry))))"

definition mergeNextRedundantStates ::
  "NFAConverter \<Rightarrow> error + (NFAConverter \<times> (FSA \<times> step) option)" where
  "mergeNextRedundantStates c =
     (case redundantStates c of
        None \<Rightarrow> Inl TypeError
      | Some [] \<Rightarrow> Inl OutOfModel
      | Some (pairToMerge # rest) \<Rightarrow>
          (case dfa c of
             None \<Rightarrow> Inl TypeError
           | Some d \<Rightarrow>
               (let entry = (clone d, MergeStates pairToMerge)
                in Inr (c\<lparr>redundantStates := Some rest,
                          steps := steps c @ [entry],
                          dfa := Some (mergeStates d (fst pairToMerge) (snd pairToMerge))\<rparr>,
                        Some entry))))"

subsection \<open>Stepping forward and backward\<close>

text \<open>The adjustment of the two indices that opens \<open>stepForward\<close>.\<close>

definition adjust_indices :: "NFAConverter \<Rightarrow> NFAConverter" where
  "adjust_indices c =
     (case dfa c of
        None \<Rightarrow> c
      | Some d \<Rightarrow>
          if alphabet_index c = length (alphabet d)
          then c\<lparr>state_index := state_index c + 1, alphabet_index := 0\<rparr>
          else c)"

text \<open>\<open>stepForward\<close> returns the session and the pair of snapshot and descriptor;
  \<open>None\<close> is the result \<open>[undefined, undefined]\<close>.\<close>

definition stepForward :: "NFAConverter \<Rightarrow> error + (NFAConverter \<times> (FSA \<times> step) option)" where
  "stepForward c =
     (let prevStateIndex = state_index c;
          prevAlphabetIndex = alphabet_index c
      in case getNextStep (adjust_indices c) of
           Inl e \<Rightarrow> Inl e
         | Inr (c', Some initialize) \<Rightarrow> initializeDFA c'
         | Inr (c', Some add_transition) \<Rightarrow> addNextTransition c' prevStateIndex prevAlphabetIndex
         | Inr (c', Some delete_state) \<Rightarrow> deleteNextUnreachableState c'
         | Inr (c', Some merge_states) \<Rightarrow> mergeNextRedundantStates c'
         | Inr (c', None) \<Rightarrow> Inr (c', None))"

text \<open>\<open>stepBackward\<close>; \<open>None\<close> is the \<open>undefined\<close> it returns on an empty history.\<close>

definition stepBackward :: "NFAConverter \<Rightarrow> error + (NFAConverter \<times> (FSA \<times> step) option)" where
  "stepBackward c =
     (if length (steps c) = 0 then Inr (c, None)
      else
        (let (prevDFA, prevStep) = last (steps c);
             c1 = c\<lparr>steps := butlast (steps c)\<rparr>
         in case prevStep of
              Initialize \<Rightarrow>
                Inr (c1\<lparr>dfa := None, steps := [], state_index := 0, alphabet_index := 0,
                        unreachableStates := None\<rparr>, Some (prevDFA, prevStep))
            | AddTransition f t s i j \<Rightarrow>
                Inr (c1\<lparr>state_index := i, alphabet_index := j, dfa := Some prevDFA\<rparr>,
                     Some (prevDFA, prevStep))
            | DeleteState s r \<Rightarrow>
                (case unreachableStates c1 of
                   None \<Rightarrow> Inl TypeError
                 | Some q \<Rightarrow>
                     Inr (c1\<lparr>unreachableStates := Some (s # q), dfa := Some prevDFA\<rparr>,
                          Some (prevDFA, prevStep)))
            | MergeStates p \<Rightarrow>
                (case redundantStates c1 of
                   None \<Rightarrow> Inl TypeError
                 | Some q \<Rightarrow>
                     Inr (c1\<lparr>redundantStates := Some (p # q), dfa := Some prevDFA\<rparr>,
                          Some (prevDFA, prevStep)))))"

text \<open>\<open>n\<close> steps forward, and \<open>n\<close> steps backward, stopping at an exception.\<close>

fun forward :: "nat \<Rightarrow> NFAConverter \<Rightarrow> error + NFAConverter" where
  "forward 0 c = Inr c"
| "forward (Suc n) c =
     (case stepForward c of Inl e \<Rightarrow> Inl e | Inr (c', r) \<Rightarrow> forward n c')"

fun backward :: "nat \<Rightarrow> NFAConverter \<Rightarrow> error + NFAConverter" where
  "backward 0 c = Inr c"
| "backward (Suc n) c =
     (case stepBackward c of Inl e \<Rightarrow> Inl e | Inr (c', r) \<Rightarrow> backward n c')"

text \<open>\<open>step(n)\<close>: \<open>n\<close> steps forward, returning the working DFA.\<close>

definition step_n :: "nat \<Rightarrow> NFAConverter \<Rightarrow> error + (NFAConverter \<times> FSA option)" where
  "step_n n c = (case forward n c of Inl e \<Rightarrow> Inl e | Inr c' \<Rightarrow> Inr (c', dfa c'))"

section \<open>Example sessions\<close>

text \<open>
  Three NFAs with the single state \<open>1\<close> and the alphabet \<open>{a}\<close>, whose powerset is
  \<open>OSLASH\<close>, \<open>{1}\<close>. In \<open>nfa_loop\<close> the state is accepting and loops on \<open>a\<close>: the DFA state
  \<open>OSLASH\<close> is unreachable. In \<open>nfa_dead\<close> the state has no transition and is not
  accepting: the DFA states \<open>OSLASH\<close> and \<open>1\<close> are a redundant pair. In \<open>nfa_final\<close> the state has
  no transition and is accepting: nothing is deleted or merged.
\<close>

definition nfa_loop :: NFA where
  "nfa_loop =
     \<lparr>states = [''1''], alphabet = [''a''],
      transitions = [(''1'', [(''a'', Some [''1''])])],
      startState = ''1'', acceptStates = [''1''],
      getPowersetOfStates = [[OSLASH], [''1'']],
      getEpsilonClosureStates = (\<lambda>s. [s]),
      getReachableStates = (\<lambda>s a. if s = ''1'' \<and> a = Some ''a'' then [''1''] else [OSLASH])\<rparr>"

definition nfa_dead :: NFA where
  "nfa_dead =
     \<lparr>states = [''1''], alphabet = [''a''],
      transitions = [(''1'', [(''a'', Some [])])],
      startState = ''1'', acceptStates = [],
      getPowersetOfStates = [[OSLASH], [''1'']],
      getEpsilonClosureStates = (\<lambda>s. [s]),
      getReachableStates = (\<lambda>s a. [OSLASH])\<rparr>"

definition nfa_final :: NFA where
  "nfa_final = nfa_dead\<lparr>acceptStates := [''1'']\<rparr>"

text \<open>The session after \<open>k\<close> calls of \<open>stepForward\<close> on a new converter.\<close>

definition session_after :: "nat \<Rightarrow> NFA \<Rightarrow> NFAConverter" where
  "session_after k n =
     (case forward k (new_NFAConverter n) of Inl e \<Rightarrow> new_NFAConverter n | Inr c \<Rightarrow> c)"

text \<open>The session after \<open>k\<close> further calls of \<open>stepBackward\<close>.\<close>

definition session_back :: "nat \<Rightarrow> NFAConverter \<Rightarrow> NFAConverter" where
  "session_back k c = (case backward k c of Inl e \<Rightarrow> c | Inr c' \<Rightarrow> c')"

text \<open>
  The NFA of the specification's example: states 1, 2, 3, alphabet \<open>{a, b}\<close>, an epsilon
  edge from 1 to 3, start state 1, accept state 1; and the same NFA with a closure query
  that names a state outside the powerset. The converter reads an NFA through its three
  queries, its alphabet, its start state and its accept states; it never reads the
  NFA's own states and transition table.
\<close>

definition nfa_example :: NFA where
  "nfa_example =
     \<lparr>states = [''1'', ''2'', ''3''], alphabet = [''a'', ''b''],
      transitions =
        [(''1'', [(''a'', Some [''2'']), (''b'', Some []), (''epsilon'', Some [''3''])]),
         (''2'', [(''a'', Some []), (''b'', Some [''3''])]),
         (''3'', [(''a'', Some [''1'']), (''b'', Some [])])],
      startState = ''1'', acceptStates = [''1''],
      getPowersetOfStates =
        [[OSLASH], [''1''], [''2''], [''3''], [''1'', ''2''], [''1'', ''3''], [''2'', ''3''],
         [''1'', ''2'', ''3'']],
      getEpsilonClosureStates = (\<lambda>s. if s = ''1'' then [''1'', ''3''] else [s]),
      getReachableStates =
        (\<lambda>s a. if s = ''1'' \<and> a = Some ''a'' then [''2'']
               else if s = ''2'' \<and> a = Some ''b'' then [''3'']
               else if s = ''3'' \<and> a = Some ''a'' then [''1'', ''3'']
               else [OSLASH])\<rparr>"

definition nfa_broken :: NFA where
  "nfa_broken = nfa_example\<lparr>getEpsilonClosureStates := (\<lambda>s. [''1'', ''4''])\<rparr>"

text \<open>
  The example NFA with a powerset query that returns the subset of 1 and 3 as \<open>[3, 1]\<close>,
  and the same with the start state 2, whose closure is itself.
\<close>

definition nfa_unsorted :: NFA where
  "nfa_unsorted =
     nfa_example\<lparr>getPowersetOfStates :=
       [[OSLASH], [''1''], [''2''], [''3''], [''1'', ''2''], [''3'', ''1''], [''2'', ''3''],
        [''1'', ''2'', ''3'']]\<rparr>"

definition nfa_unsorted_from_2 :: NFA where
  "nfa_unsorted_from_2 = nfa_unsorted\<lparr>startState := ''2''\<rparr>"

text \<open>The entry a step returns, if it returns one.\<close>

definition entry_of :: "error + (NFAConverter \<times> (FSA \<times> step) option) \<Rightarrow> (FSA \<times> step) option" where
  "entry_of r = (case r of Inl e \<Rightarrow> None | Inr (c, e) \<Rightarrow> e)"

section \<open>The stepping protocol\<close>

text \<open>
  The sessions a driver can reach: from a new converter, by \<open>stepForward\<close>, \<open>stepBackward\<close>
  and \<open>getNextStep\<close> calls that return.
\<close>

inductive reachable :: "NFAConverter \<Rightarrow> bool" where
  new: "reachable (new_NFAConverter n)"
| forward: "reachable c \<Longrightarrow> stepForward c = Inr (c', r) \<Longrightarrow> reachable c'"
| backward: "reachable c \<Longrightarrow> stepBackward c = Inr (c', r) \<Longrightarrow> reachable c'"
| query: "reachable c \<Longrightarrow> getNextStep c = Inr (c', k) \<Longrightarrow> reachable c'"

text \<open>
  What the protocol maintains. An entry of the transition table is defined when reading it
  gives an array. \<open>filled d i j\<close>: the entries are defined for every pair of a state index
  and a symbol index that comes before \<open>(i, j)\<close>, state by state and symbol by symbol.
  In a session, the working DFA is filled up to the two indices, and absent only with both
  indices 0 and an empty history; the snapshot of an \<open>add_transition\<close> entry is filled up to
  the indices the entry recorded, the snapshot of a \<open>delete_state\<close> or \<open>merge_states\<close> entry
  is defined everywhere.
\<close>

definition defined_at :: "FSA \<Rightarrow> string \<Rightarrow> string \<Rightarrow> bool" where
  "defined_at d st a = (case get_transition d st a of Inr (Some v) \<Rightarrow> True | _ \<Rightarrow> False)"

definition all_defined :: "FSA \<Rightarrow> bool" where
  "all_defined d = (\<forall>st \<in> set (states d). \<forall>a \<in> set (alphabet d). defined_at d st a)"

definition filled :: "FSA \<Rightarrow> nat \<Rightarrow> nat \<Rightarrow> bool" where
  "filled d i j =
     (\<forall>i' < length (states d). \<forall>j' < length (alphabet d).
        i' < i \<or> (i' = i \<and> j' < j) \<longrightarrow> defined_at d (states d ! i') (alphabet d ! j'))"

definition entry_ok :: "FSA \<times> step \<Rightarrow> bool" where
  "entry_ok e =
     (case snd e of
        Initialize \<Rightarrow> True
      | AddTransition st to a i j \<Rightarrow> filled (fst e) i j
      | DeleteState s r \<Rightarrow> all_defined (fst e)
      | MergeStates p \<Rightarrow> all_defined (fst e))"

definition session_ok :: "NFAConverter \<Rightarrow> bool" where
  "session_ok c =
     ((case dfa c of
         None \<Rightarrow> state_index c = 0 \<and> alphabet_index c = 0 \<and> steps c = []
       | Some d \<Rightarrow> filled d (state_index c) (alphabet_index c)) \<and>
      (\<forall>e \<in> set (steps c). entry_ok e))"

section \<open>The specification's wording\<close>

text \<open>
  The destination of an added transition in the specification's words: split the state
  label into its members, unite what \<open>getReachableStates\<close> gives for each member on the
  symbol, deduplicate and sort; the result is \<open>OSLASH\<close> when the union has nothing but
  \<open>OSLASH\<close>, otherwise the joined union without \<open>OSLASH\<close>.
\<close>

definition subset_target :: "NFA \<Rightarrow> string \<Rightarrow> string option \<Rightarrow> string" where
  "subset_target n st a =
     (let u = sort (set_spread (concat (map (\<lambda>m. getReachableStates n m a) (split_comma st))))
      in if set u \<subseteq> {OSLASH} then OSLASH else join_comma (filter (\<lambda>e. e \<noteq> OSLASH) u))"

text \<open>
  The unreachable-state search in the specification's words. The destinations of the
  transitions, self-loops left out; the states unreachable now, which are the states that
  are no destination, the start state excepted; and the rounds of the search, each round
  the states unreachable now and then the same on the automaton without them, until a
  round finds none (\<open>n\<close> bounds the number of rounds).
\<close>

definition destinations_of :: "FSA \<Rightarrow> string \<Rightarrow> string list" where
  "destinations_of d st =
     concat (map (\<lambda>a. case get_transition d st a of
                         Inr (Some v) \<Rightarrow> if join_comma v = st then [] else [join_comma v]
                       | _ \<Rightarrow> [])
                 (alphabet d))"

definition destinations :: "FSA \<Rightarrow> string list" where
  "destinations d = concat (map (destinations_of d) (states d))"

definition unreachable_now :: "FSA \<Rightarrow> string list" where
  "unreachable_now d =
     filter (\<lambda>s. s \<notin> set (destinations d) \<and> s \<noteq> startState d) (states d)"

fun unreachable_rounds :: "nat \<Rightarrow> FSA \<Rightarrow> string list list" where
  "unreachable_rounds 0 d = []"
| "unreachable_rounds (Suc n) d =
     (if unreachable_now d = [] then []
      else unreachable_now d #
           unreachable_rounds n (fold (\<lambda>s d. removeState d s) (unreachable_now d) d))"

text \<open>
  The redundant-pair search in the specification's words. The target of a transition;
  the redundancy of a pair: two distinct states, both accepting or both not, whose targets
  on every symbol are among the two; the ordered pairs of distinct states in state order;
  the first redundant pair; and the rounds of the search, each round the first redundant
  pair and then the same on the automaton with the pair merged (\<open>n\<close> bounds the number of
  rounds).
\<close>

definition target :: "FSA \<Rightarrow> string \<Rightarrow> string \<Rightarrow> string option" where
  "target d s a = (case get_transition d s a of Inr (Some v) \<Rightarrow> nth_opt v 0 | _ \<Rightarrow> None)"

definition redundant_pair :: "FSA \<Rightarrow> string \<Rightarrow> string \<Rightarrow> bool" where
  "redundant_pair d s1 s2 \<longleftrightarrow>
     s1 \<noteq> s2 \<and>
     (s1 \<in> set (acceptStates d) \<longleftrightarrow> s2 \<in> set (acceptStates d)) \<and>
     (\<forall>a \<in> set (alphabet d).
        (target d s1 a = Some s1 \<or> target d s1 a = Some s2) \<and>
        (target d s2 a = Some s2 \<or> target d s2 a = Some s1))"

definition pairs_in_state_order :: "FSA \<Rightarrow> (string \<times> string) list" where
  "pairs_in_state_order d =
     concat (map (\<lambda>s1. map (Pair s1) (filter (\<lambda>e. e \<noteq> s1) (states d))) (states d))"

definition first_redundant_pair :: "FSA \<Rightarrow> (string \<times> string) option" where
  "first_redundant_pair d =
     find (\<lambda>p. redundant_pair d (fst p) (snd p)) (pairs_in_state_order d)"

fun merge_rounds :: "nat \<Rightarrow> FSA \<Rightarrow> (string \<times> string) list" where
  "merge_rounds 0 d = []"
| "merge_rounds (Suc n) d =
     (case first_redundant_pair d of
        None \<Rightarrow> []
      | Some p \<Rightarrow> p # merge_rounds n (mergeStates d (fst p) (snd p)))"

section \<open>Properties\<close>

subsection \<open>What the parts of a forward step leave unchanged\<close>

lemma adjust_indices_fields:
  "dfa (adjust_indices c) = dfa c" "steps (adjust_indices c) = steps c"
  "nfa (adjust_indices c) = nfa c" "unreachableStates (adjust_indices c) = unreachableStates c"
  "redundantStates (adjust_indices c) = redundantStates c"
  by (simp_all add: adjust_indices_def split: option.splits)

lemma getNextStep_result:
  assumes "getNextStep c = Inr (c', k)"
  shows "(k = Some initialize \<and> dfa c = None \<and> c' = c) \<or>
         (k = Some add_transition \<and>
            (\<exists>d. dfa c = Some d \<and> state_index c < length (states d)) \<and> c' = c) \<or>
         (\<exists>d u. dfa c = Some d \<and> length (states d) \<le> state_index c \<and>
            (case unreachableStates c of None \<Rightarrow> getUnreachableStates c | Some q \<Rightarrow> Inr q) = Inr u \<and>
            ((k = Some delete_state \<and> u \<noteq> [] \<and> c' = c\<lparr>unreachableStates := Some u\<rparr>) \<or>
             (u = [] \<and>
              (\<exists>r. (case redundantStates c of
                       None \<Rightarrow> getRedundantStates (c\<lparr>unreachableStates := Some u\<rparr>)
                     | Some q \<Rightarrow> Inr q) = Inr r \<and>
                 c' = c\<lparr>unreachableStates := Some u, redundantStates := Some r\<rparr> \<and>
                 ((k = Some merge_states \<and> r \<noteq> []) \<or> (k = None \<and> r = []))))))"
  using assms unfolding getNextStep_def
  by (auto simp: Let_def split: option.splits if_splits sum.splits)

lemma stepForward_unfold:
  "stepForward c =
     (case getNextStep (adjust_indices c) of
        Inl e \<Rightarrow> Inl e
      | Inr (c0, k) \<Rightarrow>
          (case k of
             None \<Rightarrow> Inr (c0, None)
           | Some initialize \<Rightarrow> initializeDFA c0
           | Some add_transition \<Rightarrow> addNextTransition c0 (state_index c) (alphabet_index c)
           | Some delete_state \<Rightarrow> deleteNextUnreachableState c0
           | Some merge_states \<Rightarrow> mergeNextRedundantStates c0))"
  by (simp add: stepForward_def split: sum.splits option.splits step_kind.splits)

lemma initializeDFA_result:
  assumes "initializeDFA c = Inr (c', r)"
  shows "\<exists>d. c' = c\<lparr>dfa := Some d, steps := steps c @ [(d, Initialize)]\<rparr> \<and>
             r = Some (d, Initialize)"
  using assms by (auto simp: initializeDFA_def Let_def clone_def split: if_splits)

lemma addNextTransition_result:
  assumes "addNextTransition c i j = Inr (c', r)"
  shows "\<exists>d' st to a.
           c' = c\<lparr>dfa := Some d', alphabet_index := alphabet_index c + 1,
                  steps := steps c @ [(d', AddTransition st to a i j)]\<rparr> \<and>
           r = Some (d', AddTransition st to a i j)"
  using assms
  by (auto simp: addNextTransition_def Let_def clone_def
           split: option.splits if_splits sum.splits)

lemma deleteNextUnreachableState_result:
  assumes "deleteNextUnreachableState c = Inr (c', r)"
  shows "\<exists>d s rest row.
           dfa c = Some d \<and> unreachableStates c = Some (s # rest) \<and>
           c' = c\<lparr>unreachableStates := Some rest,
                  steps := steps c @ [(d, DeleteState s row)],
                  dfa := Some (removeState d s)\<rparr> \<and>
           r = Some (d, DeleteState s row) \<and> row = map_of (transitions d) s"
  using assms
  by (auto simp: deleteNextUnreachableState_def Let_def clone_def
           split: option.splits list.splits)

lemma mergeNextRedundantStates_result:
  assumes "mergeNextRedundantStates c = Inr (c', r)"
  shows "\<exists>d p rest.
           dfa c = Some d \<and> redundantStates c = Some (p # rest) \<and>
           c' = c\<lparr>redundantStates := Some rest,
                  steps := steps c @ [(d, MergeStates p)],
                  dfa := Some (mergeStates d (fst p) (snd p))\<rparr> \<and>
           r = Some (d, MergeStates p)"
  using assms
  by (auto simp: mergeNextRedundantStates_def Let_def clone_def
           split: option.splits list.splits)

text \<open>The shape of a forward step that records an entry.\<close>

lemma stepForward_entry:
  assumes "stepForward c = Inr (c', Some (snap, desc))"
  obtains
    (init) c0 where "getNextStep (adjust_indices c) = Inr (c0, Some initialize)"
      "desc = Initialize" "c' = c0\<lparr>dfa := Some snap, steps := steps c0 @ [(snap, desc)]\<rparr>"
  | (add) c0 st to a where "getNextStep (adjust_indices c) = Inr (c0, Some add_transition)"
      "desc = AddTransition st to a (state_index c) (alphabet_index c)"
      "c' = c0\<lparr>dfa := Some snap, alphabet_index := alphabet_index c0 + 1,
                steps := steps c0 @ [(snap, desc)]\<rparr>"
  | (del) c0 s rest row where "getNextStep (adjust_indices c) = Inr (c0, Some delete_state)"
      "desc = DeleteState s row" "dfa c0 = Some snap" "unreachableStates c0 = Some (s # rest)"
      "c' = c0\<lparr>unreachableStates := Some rest, steps := steps c0 @ [(snap, desc)],
                dfa := Some (removeState snap s)\<rparr>"
      "row = map_of (transitions snap) s"
  | (merge) c0 p rest where "getNextStep (adjust_indices c) = Inr (c0, Some merge_states)"
      "desc = MergeStates p" "dfa c0 = Some snap" "redundantStates c0 = Some (p # rest)"
      "c' = c0\<lparr>redundantStates := Some rest, steps := steps c0 @ [(snap, desc)],
                dfa := Some (mergeStates snap (fst p) (snd p))\<rparr>"
proof -
  from assms obtain c0 k where g: "getNextStep (adjust_indices c) = Inr (c0, Some k)"
    and s: "(case k of
               initialize \<Rightarrow> initializeDFA c0
             | add_transition \<Rightarrow> addNextTransition c0 (state_index c) (alphabet_index c)
             | delete_state \<Rightarrow> deleteNextUnreachableState c0
             | merge_states \<Rightarrow> mergeNextRedundantStates c0) = Inr (c', Some (snap, desc))"
    by (auto simp: stepForward_unfold split: sum.splits option.splits)
  show thesis
  proof (cases k)
    case initialize
    with s g init initializeDFA_result [of c0 c' "Some (snap, desc)"] show thesis by auto
  next
    case add_transition
    with s g add addNextTransition_result [of c0 "state_index c" "alphabet_index c" c' "Some (snap, desc)"]
    show thesis by auto
  next
    case delete_state
    with s g del deleteNextUnreachableState_result [of c0 c' "Some (snap, desc)"]
    show thesis by auto
  next
    case merge_states
    with s g merge mergeNextRedundantStates_result [of c0 c' "Some (snap, desc)"]
    show thesis by auto
  qed
qed

lemma getNextStep_same:
  assumes "getNextStep c = Inr (c', k)"
  shows "dfa c' = dfa c" "steps c' = steps c" "nfa c' = nfa c"
    "state_index c' = state_index c" "alphabet_index c' = alphabet_index c"
  using getNextStep_result [OF assms] by auto

subsection \<open>The errors of a forward step\<close>

lemma get_transition_error: "get_transition d st a = Inl e \<Longrightarrow> e = TypeError"
  by (auto simp: get_transition_def split: option.splits)

lemma incoming_symbols_error:
  "incoming_symbols d st syms acc = Inl e \<Longrightarrow> e = TypeError"
  by (induction syms arbitrary: acc)
    (auto simp: Let_def split: sum.splits option.splits if_splits dest: get_transition_error)

lemma incoming_states_error:
  "incoming_states d sts acc = Inl e \<Longrightarrow> e = TypeError"
  by (induction sts arbitrary: acc) (auto split: sum.splits dest: incoming_symbols_error)

lemma getUnreachableStates_rec_error:
  "getUnreachableStates_rec d l = Inl e \<Longrightarrow> e = TypeError"
proof (induction d l rule: getUnreachableStates_rec.induct)
  case (1 tempDFA list)
  show ?case
  proof (cases "nodesWithIncomingEdges tempDFA")
    case (Inl e')
    with "1.prems" have "e = e'"
      by (subst (asm) getUnreachableStates_rec.simps) simp
    with Inl show ?thesis
      by (auto simp: nodesWithIncomingEdges_def dest: incoming_states_error)
  next
    case (Inr inc)
    show ?thesis
    proof (cases "nodesWithoutIncomingEdges tempDFA inc = []")
      case True
      with Inr "1.prems" show ?thesis
        by (subst (asm) getUnreachableStates_rec.simps) simp
    next
      case False
      with Inr "1.prems" have "getUnreachableStates_rec
          (fold (\<lambda>n d. removeState d n) (nodesWithoutIncomingEdges tempDFA inc) tempDFA)
          (list @ nodesWithoutIncomingEdges tempDFA inc) = Inl e"
        by (subst (asm) getUnreachableStates_rec.simps) (simp split: sum.splits)
      then show ?thesis
        by (rule "1.IH" [OF Inr False])
    qed
  qed
qed

lemma redundant_symbols_error:
  "redundant_symbols d s1 s2 syms r = Inl e \<Longrightarrow> e = TypeError"
  by (induction syms arbitrary: r)
    (auto split: sum.splits option.splits if_splits dest: get_transition_error)

lemma scan_s2_error: "scan_s2 d s1 ss = Inl e \<Longrightarrow> e = TypeError"
  by (induction ss) (auto split: sum.splits if_splits dest: redundant_symbols_error)

lemma scan_s1_error: "scan_s1 d sts = Inl e \<Longrightarrow> e = TypeError"
  by (induction sts) (auto split: sum.splits option.splits dest: scan_s2_error)

lemma getRedundantStates_rec_error:
  "getRedundantStates_rec d l = Inl e \<Longrightarrow> e = TypeError"
proof (induction d l rule: getRedundantStates_rec.induct)
  case (1 tempDFA list)
  show ?case
  proof (cases "scan_s1 tempDFA (states tempDFA)")
    case (Inl e')
    with "1.prems" have "e = e'"
      by (subst (asm) getRedundantStates_rec.simps) simp
    with Inl show ?thesis
      by (auto dest: scan_s1_error)
  next
    case (Inr p)
    show ?thesis
    proof (cases p)
      case None
      with Inr "1.prems" show ?thesis
        by (subst (asm) getRedundantStates_rec.simps) simp
    next
      case (Some pr)
      obtain s1 s2 where pr: "pr = (s1, s2)" by (cases pr)
      with Inr Some "1.prems" have
        "getRedundantStates_rec (mergeStates tempDFA s1 s2) (list @ [(s1, s2)]) = Inl e"
        by (subst (asm) getRedundantStates_rec.simps) simp
      then show ?thesis
        by (rule "1.IH" [OF Inr Some pr [symmetric]])
    qed
  qed
qed

lemma getNextStep_error: "getNextStep c = Inl e \<Longrightarrow> e = TypeError"
  by (auto simp: getNextStep_def getUnreachableStates_def getRedundantStates_def Let_def
      split: option.splits if_splits sum.splits
      dest: getUnreachableStates_rec_error getRedundantStates_rec_error)

lemma set_transition_error: "set_transition d st a v = Inl e \<Longrightarrow> e = TypeError"
  by (auto simp: set_transition_def split: option.splits)

text \<open>\<open>stepForward\<close> calls the step methods on the arguments the model follows.\<close>

lemma initializeDFA_error: "initializeDFA c = Inl e \<Longrightarrow> e = StartStateError"
  by (auto simp: initializeDFA_def Let_def split: if_splits)

lemma addNextTransition_error:
  assumes "addNextTransition c i j = Inl e" and "dfa c = Some d"
    and "state_index c < length (states d)"
  shows "e = TypeError"
  using assms
  by (auto simp: addNextTransition_def Let_def nth_opt_def
      split: if_splits sum.splits option.splits
      dest: set_transition_error get_transition_error)

lemma deleteNextUnreachableState_error:
  assumes "deleteNextUnreachableState c = Inl e" and "unreachableStates c = Some u" and "u \<noteq> []"
  shows "e = TypeError"
  using assms
  by (cases u) (auto simp: deleteNextUnreachableState_def Let_def split: option.splits)

lemma mergeNextRedundantStates_error:
  assumes "mergeNextRedundantStates c = Inl e" and "redundantStates c = Some r" and "r \<noteq> []"
  shows "e = TypeError"
  using assms
  by (cases r) (auto simp: mergeNextRedundantStates_def Let_def split: option.splits)

text \<open>\<open>stepForward\<close> calls the step methods on the arguments the model follows.\<close>

lemma stepForward_in_model: "stepForward c \<noteq> Inl OutOfModel"
proof
  assume a: "stepForward c = Inl OutOfModel"
  show False
  proof (cases "getNextStep (adjust_indices c)")
    case (Inl e)
    with a getNextStep_error [OF Inl] show False
      by (simp add: stepForward_unfold)
  next
    case (Inr x)
    obtain c0 k where x: "x = (c0, k)" by (cases x)
    note g = Inr [unfolded x]
    show False
    proof (cases k)
      case None
      with a g show False by (simp add: stepForward_unfold)
    next
      case (Some kind)
      show False
      proof (cases kind)
        case initialize
        with a g Some have "initializeDFA c0 = Inl OutOfModel"
          by (simp add: stepForward_unfold)
        then show False by (auto dest: initializeDFA_error)
      next
        case add_transition
        with a g Some have "addNextTransition c0 (state_index c) (alphabet_index c) = Inl OutOfModel"
          by (simp add: stepForward_unfold)
        moreover from getNextStep_result [OF g] Some add_transition
        obtain d where "dfa c0 = Some d" "state_index c0 < length (states d)"
          by auto
        ultimately show False by (auto dest: addNextTransition_error)
      next
        case delete_state
        with a g Some have "deleteNextUnreachableState c0 = Inl OutOfModel"
          by (simp add: stepForward_unfold)
        moreover from getNextStep_result [OF g] Some delete_state
        obtain u where "unreachableStates c0 = Some u" "u \<noteq> []"
          by auto
        ultimately show False by (auto dest: deleteNextUnreachableState_error)
      next
        case merge_states
        with a g Some have "mergeNextRedundantStates c0 = Inl OutOfModel"
          by (simp add: stepForward_unfold)
        moreover from getNextStep_result [OF g] Some merge_states
        obtain r where "redundantStates c0 = Some r" "r \<noteq> []"
          by auto
        ultimately show False by (auto dest: mergeNextRedundantStates_error)
      qed
    qed
  qed
qed

subsection \<open>Undoing the initialize step\<close>

text \<open>
  C2. Popping an \<open>initialize\<close> entry resets the working DFA, the history, both indices
  and \<open>unreachableStates\<close>, but not \<open>redundantStates\<close>. On \<open>nfa_dead\<close>, four steps forward
  (initialize, two transitions, one merge) and three steps backward leave the
  history with its \<open>initialize\<close> entry and the queue \<open>redundantStates\<close> with the pair
  \<open>(OSLASH, 1)\<close>; the fourth step backward pops the entry, and the pair is still queued.
\<close>

theorem stepBackward_initialize_keeps_redundantStates:
  "(case backward 3 (session_after 4 nfa_dead) of
      Inl e \<Rightarrow> False
    | Inr c \<Rightarrow>
        map (step_type \<circ> snd) (steps c) = [initialize] \<and>
        redundantStates c = Some [(OSLASH, ''1'')] \<and>
        (case stepBackward c of
           Inr (c', Some (d, Initialize)) \<Rightarrow>
             dfa c' = None \<and> steps c' = [] \<and> state_index c' = 0 \<and> alphabet_index c' = 0 \<and>
             unreachableStates c' = None \<and> redundantStates c' = Some [(OSLASH, ''1'')]
         | _ \<Rightarrow> False))"
  by code_simp

subsection \<open>A step forward, then a step backward\<close>

text \<open>
  C1, as the code has it. When \<open>stepForward\<close> performs a step, \<open>stepBackward\<close> then succeeds
  and returns the entry of that step. After an \<open>initialize\<close> step the working DFA is absent
  again and the session is the one before the step with the history, both indices and
  \<open>unreachableStates\<close> at their initial values. After an \<open>add_transition\<close> step every field
  other than the working DFA has its value from before the step. After a \<open>delete_state\<close> or
  \<open>merge_states\<close> step the session is the one \<open>getNextStep\<close> left, after the adjustment
  of the indices that opens \<open>stepForward\<close> and with the queues it computed: the working
  DFA and the history are those before the step, and the whole session is the one before
  the step when no adjustment was due and the queues had been computed already.
\<close>

theorem stepForward_then_stepBackward:
  assumes "stepForward c = Inr (c', Some (snap, desc))"
  shows "\<exists>c0 c''.
           getNextStep (adjust_indices c) = Inr (c0, Some (step_type desc)) \<and>
           stepBackward c' = Inr (c'', Some (snap, desc)) \<and>
           (step_type desc = initialize \<longrightarrow>
              dfa c = None \<and>
              c'' = c\<lparr>steps := [], state_index := 0, alphabet_index := 0,
                      unreachableStates := None\<rparr>) \<and>
           (step_type desc = add_transition \<longrightarrow> c''\<lparr>dfa := dfa c\<rparr> = c) \<and>
           (step_type desc = delete_state \<or> step_type desc = merge_states \<longrightarrow>
              c'' = c0 \<and> dfa c0 = dfa c \<and> steps c0 = steps c \<and>
              state_index c0 = state_index (adjust_indices c) \<and>
              alphabet_index c0 = alphabet_index (adjust_indices c) \<and>
              (adjust_indices c = c \<and> unreachableStates c \<noteq> None \<and>
               (step_type desc = merge_states \<longrightarrow> redundantStates c \<noteq> None) \<longrightarrow> c0 = c))"
  using assms
proof (cases rule: stepForward_entry)
  case (init c0)
  from getNextStep_result [OF init(1)] have d: "dfa c = None" and "c0 = adjust_indices c"
    by (auto simp: adjust_indices_fields)
  then have "c0 = c"
    by (simp add: adjust_indices_def)
  with d init show ?thesis
    by (simp add: stepBackward_def adjust_indices_def)
next
  case (add c0 st to a)
  from getNextStep_result [OF add(1)] have c0: "c0 = adjust_indices c" by auto
  have "adjust_indices c\<lparr>state_index := state_index c, alphabet_index := alphabet_index c\<rparr> = c"
    by (simp add: adjust_indices_def split: option.splits)
  with add c0 show ?thesis
    by (simp add: stepBackward_def adjust_indices_fields)
next
  case (del c0 s rest row)
  from getNextStep_result [OF del(1)] obtain u where
    u: "c0 = adjust_indices c\<lparr>unreachableStates := Some u\<rparr>"
      "(case unreachableStates c of None \<Rightarrow> getUnreachableStates (adjust_indices c)
        | Some q \<Rightarrow> Inr q) = Inr u"
    by (auto simp: adjust_indices_fields)
  then have "adjust_indices c = c \<and> unreachableStates c \<noteq> None \<longrightarrow> c0 = c"
    by auto
  with del u(1) show ?thesis
    by (simp add: stepBackward_def adjust_indices_fields)
next
  case (merge c0 p rest)
  from getNextStep_result [OF merge(1)] obtain r where
    r: "c0 = adjust_indices c\<lparr>unreachableStates := Some [], redundantStates := Some r\<rparr>"
      "(case unreachableStates c of None \<Rightarrow> getUnreachableStates (adjust_indices c)
        | Some q \<Rightarrow> Inr q) = Inr []"
      "(case redundantStates c of
          None \<Rightarrow> getRedundantStates (adjust_indices c\<lparr>unreachableStates := Some []\<rparr>)
        | Some q \<Rightarrow> Inr q) = Inr r"
    by (auto simp: adjust_indices_fields)
  then have "adjust_indices c = c \<and> unreachableStates c \<noteq> None \<and> redundantStates c \<noteq> None
      \<longrightarrow> c0 = c"
    by auto
  with merge r(1) show ?thesis
    by (simp add: stepBackward_def adjust_indices_fields)
qed

text \<open>
  C1 as stated fails. On the freshly initialized DFA of \<open>nfa_dead\<close>, adding the transition
  of \<open>OSLASH\<close> on \<open>a\<close> and stepping back leaves that transition in the working DFA, where it
  was \<open>undefined\<close> before. On \<open>nfa_loop\<close> with every transition added, deleting the
  unreachable state and stepping back leaves \<open>state_index\<close> at 2 (it was 1),
  \<open>alphabet_index\<close> at 0 (it was 1) and \<open>unreachableStates\<close> computed (it was
  \<open>undefined\<close>).
\<close>

theorem roundtrip_counterexample:
  "(case stepForward (session_after 1 nfa_dead) of
      Inr (c', Some (snap, desc)) \<Rightarrow>
        (case stepBackward c' of
           Inr (c'', r) \<Rightarrow>
             step_type desc = add_transition \<and>
             map_option (\<lambda>d. get_transition d OSLASH ''a'') (dfa (session_after 1 nfa_dead))
               = Some (Inr None) \<and>
             map_option (\<lambda>d. get_transition d OSLASH ''a'') (dfa c'')
               = Some (Inr (Some [OSLASH])) \<and>
             dfa c'' \<noteq> dfa (session_after 1 nfa_dead)
         | Inl e \<Rightarrow> False)
    | _ \<Rightarrow> False) \<and>
   (case stepForward (session_after 3 nfa_loop) of
      Inr (c', Some (snap, desc)) \<Rightarrow>
        (case stepBackward c' of
           Inr (c'', r) \<Rightarrow>
             step_type desc = delete_state \<and>
             state_index (session_after 3 nfa_loop) = 1 \<and> state_index c'' = 2 \<and>
             alphabet_index (session_after 3 nfa_loop) = 1 \<and> alphabet_index c'' = 0 \<and>
             unreachableStates (session_after 3 nfa_loop) = None \<and>
             unreachableStates c'' = Some [OSLASH]
         | Inl e \<Rightarrow> False)
    | _ \<Rightarrow> False)"
  by code_simp

text \<open>
  The round trip on the example sessions: a deletion and a merge that are redone after
  having been undone (the indices are adjusted and the queues computed) restore the whole
  session, an added transition restores every field but the working DFA, and the
  initialization of a new converter restores the new converter.
\<close>

theorem stepForward_then_stepBackward_witness:
  "(case stepForward (session_back 1 (session_after 4 nfa_loop)) of
      Inr (c', Some (snap, desc)) \<Rightarrow>
        step_type desc = delete_state \<and>
        (case stepBackward c' of
           Inr (c'', r) \<Rightarrow> c'' = session_back 1 (session_after 4 nfa_loop) | Inl e \<Rightarrow> False)
    | _ \<Rightarrow> False) \<and>
   (case stepForward (session_back 1 (session_after 4 nfa_dead)) of
      Inr (c', Some (snap, desc)) \<Rightarrow>
        step_type desc = merge_states \<and>
        (case stepBackward c' of
           Inr (c'', r) \<Rightarrow> c'' = session_back 1 (session_after 4 nfa_dead) | Inl e \<Rightarrow> False)
    | _ \<Rightarrow> False) \<and>
   (case stepForward (session_after 2 nfa_dead) of
      Inr (c', Some (snap, desc)) \<Rightarrow>
        step_type desc = add_transition \<and>
        (case stepBackward c' of
           Inr (c'', r) \<Rightarrow> c''\<lparr>dfa := dfa (session_after 2 nfa_dead)\<rparr> = session_after 2 nfa_dead
         | Inl e \<Rightarrow> False)
    | _ \<Rightarrow> False) \<and>
   (case stepForward (new_NFAConverter nfa_dead) of
      Inr (c', Some (snap, desc)) \<Rightarrow>
        step_type desc = initialize \<and>
        (case stepBackward c' of
           Inr (c'', r) \<Rightarrow> c'' = new_NFAConverter nfa_dead | Inl e \<Rightarrow> False)
    | _ \<Rightarrow> False)"
proof -
  let ?X = "session_back 1 (session_after 4 nfa_loop)"
  let ?Y = "session_back 1 (session_after 4 nfa_dead)"
  have "case stepForward ?X of
          Inr (c', Some (snap, desc)) \<Rightarrow> step_type desc = delete_state | _ \<Rightarrow> False"
    by code_simp
  then obtain c1 snap1 desc1 where
    s1: "stepForward ?X = Inr (c1, Some (snap1, desc1))" and k1: "step_type desc1 = delete_state"
    by (auto split: sum.splits option.splits)
  have "case dfa ?X of
          Some d \<Rightarrow> alphabet_index ?X \<noteq> length (alphabet d) \<and> unreachableStates ?X \<noteq> None
        | None \<Rightarrow> False"
    by code_simp
  then have a1: "adjust_indices ?X = ?X" and u1: "unreachableStates ?X \<noteq> None"
    by (auto simp: adjust_indices_def split: option.splits)
  have "case stepForward ?Y of
          Inr (c', Some (snap, desc)) \<Rightarrow> step_type desc = merge_states | _ \<Rightarrow> False"
    by code_simp
  then obtain c2 snap2 desc2 where
    s2: "stepForward ?Y = Inr (c2, Some (snap2, desc2))" and k2: "step_type desc2 = merge_states"
    by (auto split: sum.splits option.splits)
  have "case dfa ?Y of
          Some d \<Rightarrow> alphabet_index ?Y \<noteq> length (alphabet d) \<and> unreachableStates ?Y \<noteq> None \<and>
            redundantStates ?Y \<noteq> None
        | None \<Rightarrow> False"
    by code_simp
  then have a2: "adjust_indices ?Y = ?Y" and u2: "unreachableStates ?Y \<noteq> None"
    and r2: "redundantStates ?Y \<noteq> None"
    by (auto simp: adjust_indices_def split: option.splits)
  have "case stepForward (session_after 2 nfa_dead) of
          Inr (c', Some (snap, desc)) \<Rightarrow> step_type desc = add_transition | _ \<Rightarrow> False"
    by code_simp
  then obtain c3 snap3 desc3 where
    s3: "stepForward (session_after 2 nfa_dead) = Inr (c3, Some (snap3, desc3))"
    and k3: "step_type desc3 = add_transition"
    by (auto split: sum.splits option.splits)
  have "case stepForward (new_NFAConverter nfa_dead) of
          Inr (c', Some (snap, desc)) \<Rightarrow> step_type desc = initialize | _ \<Rightarrow> False"
    by code_simp
  then obtain c4 snap4 desc4 where
    s4: "stepForward (new_NFAConverter nfa_dead) = Inr (c4, Some (snap4, desc4))"
    and k4: "step_type desc4 = initialize"
    by (auto split: sum.splits option.splits)
  have n4: "new_NFAConverter nfa_dead\<lparr>steps := [], state_index := 0, alphabet_index := 0,
      unreachableStates := None\<rparr> = new_NFAConverter nfa_dead"
    by (simp add: new_NFAConverter_def)
  show ?thesis
    using stepForward_then_stepBackward [OF s1] stepForward_then_stepBackward [OF s2]
      stepForward_then_stepBackward [OF s3] stepForward_then_stepBackward [OF s4]
      s1 k1 a1 u1 s2 k2 a2 u2 r2 s3 k3 s4 k4 n4
    by auto
qed

subsection \<open>Steps that do nothing\<close>

text \<open>
  C4, as the code has it. \<open>stepBackward\<close> on an empty history returns \<open>undefined\<close> and
  leaves the session as it is. When \<open>stepForward\<close> returns \<open>[undefined, undefined]\<close>, the
  history, the working DFA and the NFA are unchanged, and the session is the one after
  the adjustment of the indices with both queues stored empty. On a session whose indices
  need no adjustment, whose \<open>state_index\<close> is past the last state and whose queues are both
  stored empty, \<open>stepForward\<close> raises nothing, returns \<open>[undefined, undefined]\<close> and changes
  no field.
\<close>

theorem noop_steps:
  "(steps c = [] \<longrightarrow> stepBackward c = Inr (c, None)) \<and>
   (stepForward c = Inr (c', None) \<longrightarrow>
      steps c' = steps c \<and> dfa c' = dfa c \<and> nfa c' = nfa c \<and>
      c' = (adjust_indices c)\<lparr>unreachableStates := Some [], redundantStates := Some []\<rparr>) \<and>
   ((\<exists>d. dfa c = Some d \<and> length (states d) \<le> state_index c \<and>
          alphabet_index c \<noteq> length (alphabet d)) \<and>
    unreachableStates c = Some [] \<and> redundantStates c = Some [] \<longrightarrow>
      stepForward c = Inr (c, None))"
proof (intro conjI impI)
  assume "steps c = []"
  then show "stepBackward c = Inr (c, None)"
    by (simp add: stepBackward_def)
next
  assume "stepForward c = Inr (c', None)"
  then have g: "getNextStep (adjust_indices c) = Inr (c', None)"
    using initializeDFA_result addNextTransition_result deleteNextUnreachableState_result
      mergeNextRedundantStates_result
    by (fastforce simp: stepForward_unfold split: sum.splits option.splits step_kind.splits)
  from getNextStep_result [OF g]
  have c': "c' = (adjust_indices c)\<lparr>unreachableStates := Some [], redundantStates := Some []\<rparr>"
    by auto
  then show "steps c' = steps c" "dfa c' = dfa c" "nfa c' = nfa c"
    by (simp_all add: adjust_indices_fields)
  from c' show "c' = (adjust_indices c)\<lparr>unreachableStates := Some [], redundantStates := Some []\<rparr>" .
next
  assume a: "(\<exists>d. dfa c = Some d \<and> length (states d) \<le> state_index c \<and>
          alphabet_index c \<noteq> length (alphabet d)) \<and>
    unreachableStates c = Some [] \<and> redundantStates c = Some []"
  then have "adjust_indices c = c"
    by (auto simp: adjust_indices_def)
  moreover from a have "getNextStep c = Inr (c, None)"
    by (auto simp: getNextStep_def)
  ultimately show "stepForward c = Inr (c, None)"
    by (simp add: stepForward_unfold)
qed

text \<open>
  C4 as stated fails. On \<open>nfa_final\<close> with every transition added, nothing is left to do:
  \<open>stepForward\<close> returns \<open>[undefined, undefined]\<close>, and moves \<open>state_index\<close> from 1 to 2 and
  \<open>alphabet_index\<close> from 1 to 0 and stores both queues, which were \<open>undefined\<close>. On
  \<open>nfa_loop\<close> after the deletion of its unreachable state, \<open>getNextStep\<close> returns
  \<open>undefined\<close>; \<open>stepForward\<close> returns \<open>[undefined, undefined]\<close> and stores
  \<open>redundantStates\<close>, which was \<open>undefined\<close>.
\<close>

theorem noop_steps_counterexample:
  "(case stepForward (session_after 3 nfa_final) of
      Inr (c', None) \<Rightarrow>
        state_index (session_after 3 nfa_final) = 1 \<and> state_index c' = 2 \<and>
        alphabet_index (session_after 3 nfa_final) = 1 \<and> alphabet_index c' = 0 \<and>
        unreachableStates (session_after 3 nfa_final) = None \<and> unreachableStates c' = Some [] \<and>
        redundantStates (session_after 3 nfa_final) = None \<and> redundantStates c' = Some []
    | _ \<Rightarrow> False) \<and>
   (case getNextStep (session_after 4 nfa_loop) of
      Inr (c0, None) \<Rightarrow>
        (case stepForward (session_after 4 nfa_loop) of
           Inr (c', None) \<Rightarrow>
             redundantStates (session_after 4 nfa_loop) = None \<and> redundantStates c' = Some []
         | _ \<Rightarrow> False)
    | _ \<Rightarrow> False)"
  by code_simp

text \<open>
  On the example sessions: a new converter has an empty history; the fourth and the fifth
  \<open>stepForward\<close> on \<open>nfa_final\<close> return \<open>[undefined, undefined]\<close>, the fifth without any
  change.
\<close>

theorem noop_steps_witness:
  "stepBackward (new_NFAConverter nfa_final) = Inr (new_NFAConverter nfa_final, None) \<and>
   stepForward (session_after 4 nfa_final) = Inr (session_after 4 nfa_final, None) \<and>
   (case stepForward (session_after 3 nfa_final) of
      Inr (c', r) \<Rightarrow> r = None \<and> steps c' = steps (session_after 3 nfa_final) \<and>
        dfa c' = dfa (session_after 3 nfa_final)
    | Inl e \<Rightarrow> False)"
proof -
  have e: "steps (new_NFAConverter nfa_final) = []"
    by (simp add: new_NFAConverter_def)
  have "case dfa (session_after 4 nfa_final) of
          Some d \<Rightarrow> length (states d) \<le> state_index (session_after 4 nfa_final) \<and>
            alphabet_index (session_after 4 nfa_final) \<noteq> length (alphabet d) \<and>
            unreachableStates (session_after 4 nfa_final) = Some [] \<and>
            redundantStates (session_after 4 nfa_final) = Some []
        | None \<Rightarrow> False"
    by code_simp
  then have d: "(\<exists>d. dfa (session_after 4 nfa_final) = Some d \<and>
        length (states d) \<le> state_index (session_after 4 nfa_final) \<and>
        alphabet_index (session_after 4 nfa_final) \<noteq> length (alphabet d)) \<and>
      unreachableStates (session_after 4 nfa_final) = Some [] \<and>
      redundantStates (session_after 4 nfa_final) = Some []"
    by (auto split: option.splits)
  have "case stepForward (session_after 3 nfa_final) of
          Inr (c', r) \<Rightarrow> r = None | Inl e \<Rightarrow> False"
    by code_simp
  then obtain c3 where s3: "stepForward (session_after 3 nfa_final) = Inr (c3, None)"
    by (auto split: sum.splits)
  have p1: "stepBackward (new_NFAConverter nfa_final) = Inr (new_NFAConverter nfa_final, None)"
    using noop_steps [of "new_NFAConverter nfa_final" c3] e by blast
  have p2: "stepForward (session_after 4 nfa_final) = Inr (session_after 4 nfa_final, None)"
    using noop_steps [of "session_after 4 nfa_final" c3] d by blast
  have p3: "steps c3 = steps (session_after 3 nfa_final) \<and> dfa c3 = dfa (session_after 3 nfa_final)"
    using noop_steps [of "session_after 3 nfa_final" c3] s3 by blast
  show ?thesis
    using p1 p2 p3 s3 by simp
qed

subsection \<open>The transition written by a step\<close>

lemma entry_of_step:
  assumes "map_option snd (entry_of r) = Some desc"
  shows "\<exists>c' snap. r = Inr (c', Some (snap, desc)) \<and> entry_of r = Some (snap, desc)"
  using assms by (auto simp: entry_of_def split: sum.splits)

lemma fold_append_concat:
  "fold (\<lambda>s acc. acc @ f s) xs ys = ys @ concat (map f xs)"
  by (induction xs arbitrary: ys) simp_all

lemma reachableStates_subset_target:
  "join_comma (reachableStates n st a) = subset_target n st a"
  by (auto simp: reachableStates_def subset_target_def Let_def fold_append_concat)

lemma get_set_transition:
  assumes "set_transition d s a v = Inr d'"
  shows "get_transition d' s a = Inr (Some v)"
  using assms
  by (auto simp: set_transition_def get_transition_def update_conv' split: option.splits)

lemma addNextTransition_written:
  assumes "addNextTransition c i j = Inr (c', Some (snap, AddTransition st to a i' j'))"
  shows "\<exists>d v. dfa c = Some d \<and> state_index c < length (states d) \<and>
           st = states d ! state_index c \<and> a = nth_opt (alphabet d) (alphabet_index c) \<and>
           dfa c' = Some snap \<and> i' = i \<and> j' = j \<and>
           (if state_index c = 0 then set_transition d OSLASH (jskey a) [OSLASH]
            else set_transition d st (jskey a) [subset_target (nfa c) st a]) = Inr snap \<and>
           get_transition snap st (jskey a) = Inr (Some v) \<and> to = join_comma v"
  using assms
  by (auto simp: addNextTransition_def Let_def clone_def nth_opt_def
        reachableStates_subset_target
      split: option.splits if_splits sum.splits)

text \<open>
  C5. An \<open>add_transition\<close> step writes one entry of the working DFA: the transition of
  the state at \<open>state_index\<close> on the symbol at \<open>alphabet_index\<close> (both after the adjustment
  of the indices). With \<open>OSLASH\<close> the first state label and no other, as the code assumes
  of the powerset, the entry written for \<open>OSLASH\<close> is \<open>OSLASH\<close> whatever the symbol, and
  the entry written for any other state is the destination of the specification's
  wording, \<open>subset_target\<close>.
\<close>

theorem add_transition_writes:
  assumes "stepForward c = Inr (c', Some (snap, AddTransition st to a i j))"
    and "\<forall>d. dfa c = Some d \<longrightarrow> (\<exists>rest. states d = OSLASH # rest \<and> OSLASH \<notin> set rest)"
  shows "\<exists>d. dfa c = Some d \<and> dfa c' = Some snap \<and>
           st = states d ! state_index (adjust_indices c) \<and>
           a = nth_opt (alphabet d) (alphabet_index (adjust_indices c)) \<and>
           set_transition d st (jskey a) [to] = Inr snap \<and>
           to = (if st = OSLASH then OSLASH else subset_target (nfa c) st a)"
proof -
  from assms(1) obtain c0 where
    g: "getNextStep (adjust_indices c) = Inr (c0, Some add_transition)"
    and a: "addNextTransition c0 (state_index c) (alphabet_index c)
      = Inr (c', Some (snap, AddTransition st to a i j))"
    using initializeDFA_result deleteNextUnreachableState_result mergeNextRedundantStates_result
    by (fastforce simp: stepForward_unfold split: sum.splits option.splits step_kind.splits)
  from getNextStep_result [OF g] have c0: "c0 = adjust_indices c" by auto
  from addNextTransition_written [OF a] obtain d v where
    d: "dfa c0 = Some d" "state_index c0 < length (states d)"
      "st = states d ! state_index c0" "a = nth_opt (alphabet d) (alphabet_index c0)"
      "dfa c' = Some snap"
      "(if state_index c0 = 0 then set_transition d OSLASH (jskey a) [OSLASH]
        else set_transition d st (jskey a) [subset_target (nfa c0) st a]) = Inr snap"
      "get_transition snap st (jskey a) = Inr (Some v)" "to = join_comma v"
    by blast
  from d(1) c0 have dc: "dfa c = Some d"
    by (simp add: adjust_indices_fields)
  from assms(2) dc obtain rest where rest: "states d = OSLASH # rest" "OSLASH \<notin> set rest"
    by blast
  then have "k < length rest \<Longrightarrow> rest ! k \<noteq> OSLASH" for k
    by (auto simp: in_set_conv_nth)
  with rest d(2,3) have z: "(st = OSLASH) = (state_index c0 = 0)"
    by (cases "state_index c0") auto
  have w: "set_transition d st (jskey a)
      [if st = OSLASH then OSLASH else subset_target (nfa c) st a] = Inr snap"
    using d(6) z c0 by (auto simp: adjust_indices_fields)
  from get_set_transition [OF w] d(7,8)
  have "to = (if st = OSLASH then OSLASH else subset_target (nfa c) st a)"
    by simp
  with w dc d c0 show ?thesis
    by simp
qed

text \<open>
  On the example NFA: the tenth step writes the transition of \<open>1,2\<close> on \<open>a\<close>, where state 1
  reaches 2 and state 2 reaches nothing, so \<open>OSLASH\<close> is dropped and the destination is
  \<open>2\<close>; the second step writes the loop of \<open>OSLASH\<close> on \<open>a\<close>.
\<close>

theorem add_transition_writes_witness:
  "map_option snd (entry_of (stepForward (session_after 9 nfa_example)))
     = Some (AddTransition ''1,2'' ''2'' (Some ''a'') 3 2) \<and>
   map_option (\<lambda>d. set_transition d ''1,2'' ''a'' [''2'']) (dfa (session_after 9 nfa_example))
     = map_option (\<lambda>e. Inr (fst e)) (entry_of (stepForward (session_after 9 nfa_example))) \<and>
   map_option snd (entry_of (stepForward (session_after 1 nfa_example)))
     = Some (AddTransition OSLASH OSLASH (Some ''a'') 0 0) \<and>
   map_option (\<lambda>d. set_transition d OSLASH ''a'' [OSLASH]) (dfa (session_after 1 nfa_example))
     = map_option (\<lambda>e. Inr (fst e)) (entry_of (stepForward (session_after 1 nfa_example)))"
proof -
  let ?X = "session_after 9 nfa_example"
  let ?Y = "session_after 1 nfa_example"
  have e1: "map_option snd (entry_of (stepForward ?X))
      = Some (AddTransition ''1,2'' ''2'' (Some ''a'') 3 2)"
    by code_simp
  from entry_of_step [OF e1] obtain c1 snap1 where
    s1: "stepForward ?X = Inr (c1, Some (snap1, AddTransition ''1,2'' ''2'' (Some ''a'') 3 2))"
    and t1: "entry_of (stepForward ?X) = Some (snap1, AddTransition ''1,2'' ''2'' (Some ''a'') 3 2)"
    by blast
  have "case dfa ?X of
          Some d \<Rightarrow> (case states d of [] \<Rightarrow> False | s # rest \<Rightarrow> s = OSLASH \<and> OSLASH \<notin> set rest)
        | None \<Rightarrow> False"
    by code_simp
  then have h1: "\<forall>d. dfa ?X = Some d \<longrightarrow> (\<exists>rest. states d = OSLASH # rest \<and> OSLASH \<notin> set rest)"
    by (auto split: option.splits list.splits)
  have e2: "map_option snd (entry_of (stepForward ?Y))
      = Some (AddTransition OSLASH OSLASH (Some ''a'') 0 0)"
    by code_simp
  from entry_of_step [OF e2] obtain c2 snap2 where
    s2: "stepForward ?Y = Inr (c2, Some (snap2, AddTransition OSLASH OSLASH (Some ''a'') 0 0))"
    and t2: "entry_of (stepForward ?Y) = Some (snap2, AddTransition OSLASH OSLASH (Some ''a'') 0 0)"
    by blast
  have "case dfa ?Y of
          Some d \<Rightarrow> (case states d of [] \<Rightarrow> False | s # rest \<Rightarrow> s = OSLASH \<and> OSLASH \<notin> set rest)
        | None \<Rightarrow> False"
    by code_simp
  then have h2: "\<forall>d. dfa ?Y = Some d \<longrightarrow> (\<exists>rest. states d = OSLASH # rest \<and> OSLASH \<notin> set rest)"
    by (auto split: option.splits list.splits)
  from add_transition_writes [OF s1 h1]
  have p1: "map_option (\<lambda>d. set_transition d ''1,2'' ''a'' [''2'']) (dfa ?X) = Some (Inr snap1)"
    by (auto simp: jskey_def)
  from add_transition_writes [OF s2 h2]
  have p2: "map_option (\<lambda>d. set_transition d OSLASH ''a'' [OSLASH]) (dfa ?Y) = Some (Inr snap2)"
    by (auto simp: jskey_def)
  show ?thesis
    using e1 e2 t1 t2 p1 p2 by simp
qed

subsection \<open>The snapshot of a history entry\<close>

text \<open>
  C9, as the code has it. A forward step appends one entry to the history. The snapshot
  of a \<open>delete_state\<close> or \<open>merge_states\<close> entry is the working DFA as it was before the
  step, and the working DFA after the step is that snapshot without the first state of
  the queue, or with the first pair of the queue merged. The snapshot of an
  \<open>initialize\<close> or \<open>add_transition\<close> entry is the working DFA after the step: the DFA
  that \<open>initializeDFA\<close> builds, or the DFA before the step with the one entry written.
  \<open>stepBackward\<close> makes the popped snapshot the working DFA, except for an \<open>initialize\<close>
  entry, where the DFA becomes absent: after \<open>delete_state\<close>, \<open>merge_states\<close> and
  \<open>initialize\<close> that is the DFA before the step, after \<open>add_transition\<close> it is the
  snapshot, the DFA after the step.
\<close>

theorem snapshot_of_step:
  assumes "stepForward c = Inr (c', Some (snap, desc))"
  shows "steps c' = steps c @ [(snap, desc)] \<and>
         (step_type desc = delete_state \<longrightarrow>
            dfa c = Some snap \<and>
            (\<exists>c0 s rest.
               getNextStep (adjust_indices c) = Inr (c0, Some delete_state) \<and>
               unreachableStates c0 = Some (s # rest) \<and>
               desc = DeleteState s (map_of (transitions snap) s) \<and>
               unreachableStates c' = Some rest \<and>
               dfa c' = Some (removeState snap s)) \<and>
            (\<exists>c''. stepBackward c' = Inr (c'', Some (snap, desc)) \<and> dfa c'' = dfa c)) \<and>
         (step_type desc = merge_states \<longrightarrow>
            dfa c = Some snap \<and>
            (\<exists>c0 p rest.
               getNextStep (adjust_indices c) = Inr (c0, Some merge_states) \<and>
               redundantStates c0 = Some (p # rest) \<and>
               desc = MergeStates p \<and>
               redundantStates c' = Some rest \<and>
               dfa c' = Some (mergeStates snap (fst p) (snd p))) \<and>
            (\<exists>c''. stepBackward c' = Inr (c'', Some (snap, desc)) \<and> dfa c'' = dfa c)) \<and>
         (step_type desc = initialize \<longrightarrow>
            dfa c = None \<and> initializeDFA c = Inr (c', Some (snap, desc)) \<and>
            dfa c' = Some snap \<and>
            (\<exists>c''. stepBackward c' = Inr (c'', Some (snap, desc)) \<and> dfa c'' = dfa c)) \<and>
         (step_type desc = add_transition \<longrightarrow>
            (\<exists>d st to a.
               desc = AddTransition st to a (state_index c) (alphabet_index c) \<and>
               dfa c = Some d \<and>
               (if state_index (adjust_indices c) = 0
                then set_transition d OSLASH (jskey a) [OSLASH]
                else set_transition d st (jskey a) [subset_target (nfa c) st a]) = Inr snap) \<and>
            dfa c' = Some snap \<and>
            (\<exists>c''. stepBackward c' = Inr (c'', Some (snap, desc)) \<and> dfa c'' = Some snap))"
  using assms
proof (cases rule: stepForward_entry)
  case (init c0)
  from getNextStep_result [OF init(1)] have d: "dfa c = None" and "c0 = adjust_indices c"
    by (auto simp: adjust_indices_fields)
  then have c0: "c0 = c"
    by (simp add: adjust_indices_def)
  have "stepForward c = initializeDFA c0"
    using init(1) by (simp add: stepForward_unfold)
  with assms c0 have "initializeDFA c = Inr (c', Some (snap, desc))"
    by simp
  with init d c0 show ?thesis
    by (simp add: stepBackward_def)
next
  case (add c0 st to a)
  from getNextStep_result [OF add(1)] have c0: "c0 = adjust_indices c" by auto
  have "stepForward c = addNextTransition c0 (state_index c) (alphabet_index c)"
    using add(1) by (simp add: stepForward_unfold)
  with assms add(2) have "addNextTransition c0 (state_index c) (alphabet_index c)
      = Inr (c', Some (snap, AddTransition st to a (state_index c) (alphabet_index c)))"
    by simp
  from addNextTransition_written [OF this] obtain d where
    "dfa c0 = Some d"
    "(if state_index c0 = 0 then set_transition d OSLASH (jskey a) [OSLASH]
      else set_transition d st (jskey a) [subset_target (nfa c0) st a]) = Inr snap"
    by blast
  with c0 have w: "\<exists>d st' to' a'.
       desc = AddTransition st' to' a' (state_index c) (alphabet_index c) \<and>
       dfa c = Some d \<and>
       (if state_index (adjust_indices c) = 0
        then set_transition d OSLASH (jskey a') [OSLASH]
        else set_transition d st' (jskey a') [subset_target (nfa c) st' a']) = Inr snap"
    using add(2) by (auto simp: adjust_indices_fields)
  from add have "steps c' = steps c @ [(snap, desc)]" "dfa c' = Some snap"
    "\<exists>c''. stepBackward c' = Inr (c'', Some (snap, desc)) \<and> dfa c'' = Some snap"
    using getNextStep_same [OF add(1)]
    by (simp_all add: stepBackward_def adjust_indices_fields)
  with w add(2) show ?thesis
    by simp
next
  case (del c0 s rest row)
  from del have "\<exists>c0 s rest.
       getNextStep (adjust_indices c) = Inr (c0, Some delete_state) \<and>
       unreachableStates c0 = Some (s # rest) \<and>
       desc = DeleteState s (map_of (transitions snap) s) \<and>
       unreachableStates c' = Some rest \<and>
       dfa c' = Some (removeState snap s)"
    by (intro exI [of _ c0] exI [of _ s] exI [of _ rest]) simp
  moreover from del have "steps c' = steps c @ [(snap, desc)]" "dfa c = Some snap"
    "\<exists>c''. stepBackward c' = Inr (c'', Some (snap, desc)) \<and> dfa c'' = dfa c"
    using getNextStep_same [OF del(1)]
    by (simp_all add: stepBackward_def adjust_indices_fields)
  ultimately show ?thesis
    using del(2) by simp
next
  case (merge c0 p rest)
  from merge have "\<exists>c0 p rest.
       getNextStep (adjust_indices c) = Inr (c0, Some merge_states) \<and>
       redundantStates c0 = Some (p # rest) \<and>
       desc = MergeStates p \<and>
       redundantStates c' = Some rest \<and>
       dfa c' = Some (mergeStates snap (fst p) (snd p))"
    by (intro exI [of _ c0] exI [of _ p] exI [of _ rest]) simp
  moreover from merge have "steps c' = steps c @ [(snap, desc)]" "dfa c = Some snap"
    "\<exists>c''. stepBackward c' = Inr (c'', Some (snap, desc)) \<and> dfa c'' = dfa c"
    using getNextStep_same [OF merge(1)]
    by (simp_all add: stepBackward_def adjust_indices_fields)
  ultimately show ?thesis
    using merge(2) by simp
qed

text \<open>
  C9 as stated fails in its last part: \<open>stepBackward\<close> yields the DFA from before the
  step not only after \<open>delete_state\<close> and \<open>merge_states\<close> steps. Initializing a new
  converter and stepping back leaves the DFA absent, as it was. On \<open>nfa_dead\<close>, after the
  first transition has been added and undone, the working DFA keeps the written entry;
  adding the transition again writes the same value, and stepping back yields the DFA
  from before that step.
\<close>

theorem snapshot_of_step_counterexample:
  "(case stepForward (new_NFAConverter nfa_dead) of
      Inr (c', Some (snap, desc)) \<Rightarrow>
        (case stepBackward c' of
           Inr (c'', r) \<Rightarrow>
             step_type desc = initialize \<and> dfa c' = Some snap \<and>
             dfa c'' = dfa (new_NFAConverter nfa_dead)
         | Inl e \<Rightarrow> False)
    | _ \<Rightarrow> False) \<and>
   (case stepForward (session_back 1 (session_after 2 nfa_dead)) of
      Inr (c', Some (snap, desc)) \<Rightarrow>
        (case stepBackward c' of
           Inr (c'', r) \<Rightarrow>
             step_type desc = add_transition \<and> dfa c' = Some snap \<and>
             dfa (session_back 1 (session_after 2 nfa_dead)) = Some snap \<and>
             dfa c'' = dfa (session_back 1 (session_after 2 nfa_dead))
         | Inl e \<Rightarrow> False)
    | _ \<Rightarrow> False)"
  by code_simp

text \<open>
  The four kinds of step on the example sessions: the unreachable state \<open>OSLASH\<close> of
  \<open>nfa_loop\<close> is deleted and the state \<open>1\<close> is left, the redundant pair of \<open>nfa_dead\<close> is
  merged and the state \<open>OSLASH\<close> is left, a transition is added to the freshly initialized
  DFA of \<open>nfa_dead\<close> (the snapshot differs from the DFA before the step), and a new
  converter is initialized.
\<close>

theorem snapshot_of_step_witness:
  "(case stepForward (session_after 3 nfa_loop) of
      Inr (c', Some (snap, desc)) \<Rightarrow>
        step_type desc = delete_state \<and> dfa (session_after 3 nfa_loop) = Some snap \<and>
        steps c' = steps (session_after 3 nfa_loop) @ [(snap, desc)] \<and>
        dfa c' = Some (removeState snap OSLASH) \<and>
        map_option states (dfa c') = Some [''1''] \<and>
        (case stepBackward c' of
           Inr (c'', r) \<Rightarrow> dfa c'' = dfa (session_after 3 nfa_loop) | Inl e \<Rightarrow> False)
    | _ \<Rightarrow> False) \<and>
   (case stepForward (session_after 3 nfa_dead) of
      Inr (c', Some (snap, desc)) \<Rightarrow>
        step_type desc = merge_states \<and> dfa (session_after 3 nfa_dead) = Some snap \<and>
        dfa c' = Some (mergeStates snap OSLASH ''1'') \<and>
        map_option states (dfa c') = Some [OSLASH] \<and>
        (case stepBackward c' of
           Inr (c'', r) \<Rightarrow> dfa c'' = dfa (session_after 3 nfa_dead) | Inl e \<Rightarrow> False)
    | _ \<Rightarrow> False) \<and>
   (case stepForward (session_after 1 nfa_dead) of
      Inr (c', Some (snap, desc)) \<Rightarrow>
        step_type desc = add_transition \<and> dfa c' = Some snap \<and>
        dfa (session_after 1 nfa_dead) \<noteq> Some snap \<and>
        map_option (\<lambda>d. set_transition d OSLASH ''a'' [OSLASH]) (dfa (session_after 1 nfa_dead))
          = Some (Inr snap) \<and>
        (case stepBackward c' of Inr (c'', r) \<Rightarrow> dfa c'' = dfa c' | Inl e \<Rightarrow> False)
    | _ \<Rightarrow> False) \<and>
   (case stepForward (session_after 0 nfa_dead) of
      Inr (c', Some (snap, desc)) \<Rightarrow>
        step_type desc = initialize \<and> dfa c' = Some snap \<and>
        (case stepBackward c' of Inr (c'', r) \<Rightarrow> dfa c'' = None | Inl e \<Rightarrow> False)
    | _ \<Rightarrow> False)"
proof -
  let ?L = "session_after 3 nfa_loop"
  let ?D = "session_after 3 nfa_dead"
  let ?A = "session_after 1 nfa_dead"
  let ?I = "session_after 0 nfa_dead"
  have e1: "map_option snd (entry_of (stepForward ?L))
      = Some (DeleteState OSLASH (Some [(''a'', Some [OSLASH])]))"
    by code_simp
  from entry_of_step [OF e1] obtain c1 snap1 where
    s1: "stepForward ?L = Inr (c1, Some (snap1, DeleteState OSLASH (Some [(''a'', Some [OSLASH])])))"
    by blast
  have v1: "case stepForward ?L of
      Inr (c', r) \<Rightarrow> map_option states (dfa c') = Some [''1''] | Inl e \<Rightarrow> False"
    by code_simp
  from snapshot_of_step [OF s1] s1 v1
  have p1: "case stepForward ?L of
      Inr (c', Some (snap, desc)) \<Rightarrow>
        step_type desc = delete_state \<and> dfa ?L = Some snap \<and>
        steps c' = steps ?L @ [(snap, desc)] \<and>
        dfa c' = Some (removeState snap OSLASH) \<and>
        map_option states (dfa c') = Some [''1''] \<and>
        (case stepBackward c' of Inr (c'', r) \<Rightarrow> dfa c'' = dfa ?L | Inl e \<Rightarrow> False)
    | _ \<Rightarrow> False"
    by auto
  have e2: "map_option snd (entry_of (stepForward ?D)) = Some (MergeStates (OSLASH, ''1''))"
    by code_simp
  from entry_of_step [OF e2] obtain c2 snap2 where
    s2: "stepForward ?D = Inr (c2, Some (snap2, MergeStates (OSLASH, ''1'')))"
    by blast
  have v2: "case stepForward ?D of
      Inr (c', r) \<Rightarrow> map_option states (dfa c') = Some [OSLASH] | Inl e \<Rightarrow> False"
    by code_simp
  from snapshot_of_step [OF s2] s2 v2
  have p2: "case stepForward ?D of
      Inr (c', Some (snap, desc)) \<Rightarrow>
        step_type desc = merge_states \<and> dfa ?D = Some snap \<and>
        dfa c' = Some (mergeStates snap OSLASH ''1'') \<and>
        map_option states (dfa c') = Some [OSLASH] \<and>
        (case stepBackward c' of Inr (c'', r) \<Rightarrow> dfa c'' = dfa ?D | Inl e \<Rightarrow> False)
    | _ \<Rightarrow> False"
    by auto
  have e3: "map_option snd (entry_of (stepForward ?A))
      = Some (AddTransition OSLASH OSLASH (Some ''a'') 0 0)"
    by code_simp
  from entry_of_step [OF e3] obtain c3 snap3 where
    s3: "stepForward ?A = Inr (c3, Some (snap3, AddTransition OSLASH OSLASH (Some ''a'') 0 0))"
    by blast
  have v3: "case stepForward ?A of
      Inr (c', Some (snap, desc)) \<Rightarrow> dfa ?A \<noteq> Some snap | _ \<Rightarrow> False"
    by code_simp
  have i3: "state_index (adjust_indices ?A) = 0"
    by code_simp
  from snapshot_of_step [OF s3] s3 v3 i3
  have p3: "case stepForward ?A of
      Inr (c', Some (snap, desc)) \<Rightarrow>
        step_type desc = add_transition \<and> dfa c' = Some snap \<and>
        dfa ?A \<noteq> Some snap \<and>
        map_option (\<lambda>d. set_transition d OSLASH ''a'' [OSLASH]) (dfa ?A) = Some (Inr snap) \<and>
        (case stepBackward c' of Inr (c'', r) \<Rightarrow> dfa c'' = dfa c' | Inl e \<Rightarrow> False)
    | _ \<Rightarrow> False"
    by (auto simp: jskey_def)
  have e4: "map_option snd (entry_of (stepForward ?I)) = Some Initialize"
    by code_simp
  from entry_of_step [OF e4] obtain c4 snap4 where
    s4: "stepForward ?I = Inr (c4, Some (snap4, Initialize))"
    by blast
  from snapshot_of_step [OF s4] s4
  have p4: "case stepForward ?I of
      Inr (c', Some (snap, desc)) \<Rightarrow>
        step_type desc = initialize \<and> dfa c' = Some snap \<and>
        (case stepBackward c' of Inr (c'', r) \<Rightarrow> dfa c'' = None | Inl e \<Rightarrow> False)
    | _ \<Rightarrow> False"
    by auto
  from p1 p2 p3 p4 show ?thesis
    by simp
qed

subsection \<open>Initialization\<close>

lemma map_of_fold_update:
  "map_of (fold (\<lambda>k t. AList.update k v t) ks t0) k =
     (if k \<in> set ks then Some v else map_of t0 k)"
  by (induction ks arbitrary: t0) (auto simp: update_conv')

lemma map_of_empty_transitions:
  "map_of (empty_transitions sts alph) s =
     (if s \<in> set sts then Some (fold (\<lambda>e r. AList.update e None r) alph []) else None)"
  by (simp add: empty_transitions_def map_of_fold_update)

text \<open>
  C8, as the code has it. \<open>initializeDFA\<close> raises its error exactly when the start label,
  the sorted and joined epsilon closure of the NFA's start state without duplicates, is
  not among the labels, and raises nothing else. Otherwise it records an \<open>initialize\<close>
  entry with a copy of the new DFA. The labels, the states of the DFA, are the subsets of
  the powerset, each joined in the order in which the powerset query returns its members:
  no sort is applied to them, and they are the sorted joined subsets when the query
  returns each subset sorted. The alphabet is the NFA's, the transition table has a row
  for each state holding \<open>undefined\<close> for each symbol, the start state is the start label
  and the accept states are the joined subsets that contain an accept state of the NFA.
\<close>

theorem initializeDFA_builds:
  "(initializeDFA c = Inl StartStateError \<longleftrightarrow>
      join_comma (sort (set_spread (getEpsilonClosureStates (nfa c) (startState (nfa c)))))
        \<notin> set (map join_comma (getPowersetOfStates (nfa c)))) \<and>
   initializeDFA c \<noteq> Inl TypeError \<and> initializeDFA c \<noteq> Inl OutOfModel \<and>
   (initializeDFA c = Inr (c', r) \<longrightarrow>
      (\<exists>d. c' = c\<lparr>dfa := Some d, steps := steps c @ [(d, Initialize)]\<rparr> \<and>
           r = Some (d, Initialize) \<and>
           states d = map join_comma (getPowersetOfStates (nfa c)) \<and>
           alphabet d = alphabet (nfa c) \<and>
           (\<forall>s \<in> set (states d). \<exists>row. map_of (transitions d) s = Some row \<and>
              (\<forall>a. map_of row a = (if a \<in> set (alphabet d) then Some None else None))) \<and>
           startState d =
             join_comma (sort (set_spread (getEpsilonClosureStates (nfa c) (startState (nfa c))))) \<and>
           acceptStates d =
             map join_comma
               (filter (\<lambda>e. set e \<inter> set (acceptStates (nfa c)) \<noteq> {}) (getPowersetOfStates (nfa c))) \<and>
           ((\<forall>e \<in> set (getPowersetOfStates (nfa c)). sorted e) \<longrightarrow>
              states d = map (\<lambda>e. join_comma (sort e)) (getPowersetOfStates (nfa c)))))"
proof -
  have f: "(\<lambda>e. \<exists>s \<in> set (acceptStates (nfa c)). s \<in> set e)
      = (\<lambda>e. set e \<inter> set (acceptStates (nfa c)) \<noteq> {})"
    by auto
  have s: "(\<forall>e \<in> set ps. sorted e) \<Longrightarrow> map join_comma ps = map (\<lambda>e. join_comma (sort e)) ps"
    for ps :: "string list list"
    by (induction ps) (simp_all add: sort_key_id_if_sorted)
  show ?thesis
    unfolding initializeDFA_def Let_def f
    by (auto simp: new_FSA_def clone_def map_of_empty_transitions map_of_fold_update s)
qed

text \<open>
  C8 as stated fails: the labels are not sorted. With the subset of 1 and 3 returned as
  \<open>[3, 1]\<close> the label is \<open>3,1\<close>, where the sorted joined label is \<open>1,3\<close>. From the start
  state 2 the DFA is built with the state \<open>3,1\<close> and without a state \<open>1,3\<close>. From the
  start state 1, whose start label is \<open>1,3\<close>, the error is raised, although \<open>1,3\<close> is
  among the sorted joined labels of the powerset.
\<close>

theorem initializeDFA_labels_counterexample:
  "map_option (\<lambda>e. states (fst e)) (entry_of (initializeDFA (new_NFAConverter nfa_unsorted_from_2)))
     = Some [OSLASH, ''1'', ''2'', ''3'', ''1,2'', ''3,1'', ''2,3'', ''1,2,3''] \<and>
   map (\<lambda>e. join_comma (sort e)) (getPowersetOfStates nfa_unsorted_from_2)
     = [OSLASH, ''1'', ''2'', ''3'', ''1,2'', ''1,3'', ''2,3'', ''1,2,3''] \<and>
   (case initializeDFA (new_NFAConverter nfa_unsorted) of
      Inl e \<Rightarrow> e = StartStateError | Inr x \<Rightarrow> False) \<and>
   join_comma (sort (set_spread (getEpsilonClosureStates nfa_unsorted (startState nfa_unsorted))))
     = ''1,3'' \<and>
   ''1,3'' \<in> set (map (\<lambda>e. join_comma (sort e)) (getPowersetOfStates nfa_unsorted)) \<and>
   ''1,3'' \<notin> set (map join_comma (getPowersetOfStates nfa_unsorted))"
  by code_simp

text \<open>
  On the example NFA the start state is \<open>1,3\<close> and the accept states are the four subsets
  that contain 1; with a closure that names the unknown state 4 the error is raised.
\<close>

theorem initializeDFA_builds_witness:
  "map_option (\<lambda>e. (states (fst e), startState (fst e), acceptStates (fst e), snd e))
     (entry_of (initializeDFA (new_NFAConverter nfa_example)))
     = Some ([OSLASH, ''1'', ''2'', ''3'', ''1,2'', ''1,3'', ''2,3'', ''1,2,3''], ''1,3'',
             [''1'', ''1,2'', ''1,3'', ''1,2,3''], Initialize) \<and>
   initializeDFA (new_NFAConverter nfa_broken) = Inl StartStateError"
proof -
  let ?c = "new_NFAConverter nfa_example"
  have "case initializeDFA ?c of Inr x \<Rightarrow> True | Inl e \<Rightarrow> False"
    by code_simp
  then obtain c' r where i: "initializeDFA ?c = Inr (c', r)"
    by (auto split: sum.splits)
  have srt: "\<forall>e \<in> set (getPowersetOfStates (nfa ?c)). sorted e"
    by code_simp
  from initializeDFA_builds [of ?c c' r] i srt obtain d where
    d: "r = Some (d, Initialize)"
      "states d = map (\<lambda>e. join_comma (sort e)) (getPowersetOfStates (nfa ?c))"
      "startState d =
         join_comma (sort (set_spread (getEpsilonClosureStates (nfa ?c) (startState (nfa ?c)))))"
      "acceptStates d =
         map join_comma
           (filter (\<lambda>e. set e \<inter> set (acceptStates (nfa ?c)) \<noteq> {}) (getPowersetOfStates (nfa ?c)))"
    by blast
  have v1: "map (\<lambda>e. join_comma (sort e)) (getPowersetOfStates (nfa ?c))
      = [OSLASH, ''1'', ''2'', ''3'', ''1,2'', ''1,3'', ''2,3'', ''1,2,3'']"
    by code_simp
  have v2: "join_comma (sort (set_spread (getEpsilonClosureStates (nfa ?c) (startState (nfa ?c)))))
      = ''1,3''"
    by code_simp
  have v3: "map join_comma
       (filter (\<lambda>e. set e \<inter> set (acceptStates (nfa ?c)) \<noteq> {}) (getPowersetOfStates (nfa ?c)))
      = [''1'', ''1,2'', ''1,3'', ''1,2,3'']"
    by code_simp
  have p1: "map_option (\<lambda>e. (states (fst e), startState (fst e), acceptStates (fst e), snd e))
     (entry_of (initializeDFA ?c))
     = Some ([OSLASH, ''1'', ''2'', ''3'', ''1,2'', ''1,3'', ''2,3'', ''1,2,3''], ''1,3'',
             [''1'', ''1,2'', ''1,3'', ''1,2,3''], Initialize)"
    using i d v1 v2 v3 by (simp add: entry_of_def)
  let ?b = "new_NFAConverter nfa_broken"
  have "join_comma (sort (set_spread (getEpsilonClosureStates (nfa ?b) (startState (nfa ?b)))))
      \<notin> set (map join_comma (getPowersetOfStates (nfa ?b)))"
    by code_simp
  with initializeDFA_builds [of ?b c' r]
  have p2: "initializeDFA ?b = Inl StartStateError"
    by blast
  from p1 p2 show ?thesis by simp
qed

subsection \<open>What the stepping protocol maintains\<close>

lemma defined_atD: "defined_at d st a \<longleftrightarrow> (\<exists>v. get_transition d st a = Inr (Some v))"
  by (auto simp: defined_at_def split: sum.splits option.splits)

lemma defined_at_iff:
  "defined_at d st a \<longleftrightarrow>
     (\<exists>r v. map_of (transitions d) st = Some r \<and> map_of r a = Some (Some v))"
  by (auto simp: defined_at_def get_transition_def split: sum.splits option.splits)

lemma set_transition_same:
  assumes "set_transition d s a v = Inr d'"
  shows "states d' = states d" "alphabet d' = alphabet d"
  using assms by (auto simp: set_transition_def split: option.splits)

lemma set_transition_defined:
  assumes "set_transition d s a v = Inr d'" and "defined_at d x y"
  shows "defined_at d' x y"
  using assms
  by (auto simp: defined_at_iff set_transition_def update_conv' split: option.splits)

lemma filled_set_transition:
  assumes "set_transition d s a v = Inr d'" and "filled d i j"
  shows "filled d' i j"
  using assms set_transition_defined [OF assms(1)]
  by (simp add: filled_def set_transition_same [OF assms(1)])

lemma all_defined_filled: "all_defined d \<Longrightarrow> filled d i j"
  by (simp add: all_defined_def filled_def)

lemma filled_all_defined:
  assumes "filled d i j" and "length (states d) \<le> i"
  shows "all_defined d"
  unfolding all_defined_def
proof (intro ballI)
  fix st a
  assume "st \<in> set (states d)" and "a \<in> set (alphabet d)"
  then obtain i' j' where "i' < length (states d)" "states d ! i' = st"
    "j' < length (alphabet d)" "alphabet d ! j' = a"
    by (auto simp: in_set_conv_nth)
  with assms show "defined_at d st a"
    by (auto simp: filled_def)
qed

lemma filled_wrap:
  assumes "filled d i (length (alphabet d))"
  shows "filled d (Suc i) 0"
  using assms by (auto simp: filled_def less_Suc_eq)

lemma session_ok_adjust_indices:
  assumes "session_ok c"
  shows "session_ok (adjust_indices c)"
  using assms filled_wrap
  by (auto simp: session_ok_def adjust_indices_def split: option.splits)

lemma all_defined_removeState:
  assumes "all_defined d"
  shows "all_defined (removeState d s)"
  using assms
  by (auto simp: all_defined_def removeState_def defined_at_iff delete_conv')

lemma map_of_map_rows:
  "map_of (map (\<lambda>(k, r). (k, f r)) t) x = map_option f (map_of t x)"
  by (induction t) auto

lemma all_defined_mergeStates:
  assumes "all_defined d"
  shows "all_defined (mergeStates d a b)"
  using assms
  by (fastforce simp: all_defined_def mergeStates_def defined_at_iff delete_conv' map_of_map_rows)


lemma session_ok_getNextStep:
  assumes "getNextStep c = Inr (c', k)" and "session_ok c"
  shows "session_ok c'"
  using getNextStep_result [OF assms(1)] assms(2)
  by (auto simp: session_ok_def)

lemma session_ok_all_defined:
  assumes "session_ok c" and "dfa c = Some d" and "length (states d) \<le> state_index c"
  shows "all_defined d"
  using assms filled_all_defined [of d "state_index c" "alphabet_index c"]
  by (simp add: session_ok_def)

lemma session_ok_entry:
  assumes "session_ok c" and "stepForward c = Inr (c', Some (snap, desc))"
  shows "session_ok c'"
  using assms(2)
proof (cases rule: stepForward_entry)
  case (init c0)
  from getNextStep_result [OF init(1)] have d: "dfa c = None" and c0: "c0 = adjust_indices c"
    by (auto simp: adjust_indices_fields)
  with assms(1) have "state_index c = 0" "alphabet_index c = 0" "steps c = []"
    by (auto simp: session_ok_def)
  with init d c0 show ?thesis
    by (simp add: session_ok_def adjust_indices_def filled_def entry_ok_def)
next
  case (add c0 st to a)
  from getNextStep_result [OF add(1)] have c0: "c0 = adjust_indices c" by auto
  have ok0: "session_ok c0"
    using assms(1) c0 by (simp add: session_ok_adjust_indices)
  have "stepForward c = addNextTransition c0 (state_index c) (alphabet_index c)"
    using add(1) by (simp add: stepForward_unfold)
  with assms(2) add(2) have a: "addNextTransition c0 (state_index c) (alphabet_index c)
      = Inr (c', Some (snap, AddTransition st to a (state_index c) (alphabet_index c)))"
    by simp
  from addNextTransition_written [OF a] obtain d v where
    d: "dfa c0 = Some d" "state_index c0 < length (states d)"
      "st = states d ! state_index c0" "a = nth_opt (alphabet d) (alphabet_index c0)"
      "(if state_index c0 = 0 then set_transition d OSLASH (jskey a) [OSLASH]
        else set_transition d st (jskey a) [subset_target (nfa c0) st a]) = Inr snap"
      "get_transition snap st (jskey a) = Inr (Some v)"
    by blast
  from d(5) obtain s' v' where w: "set_transition d s' (jskey a) v' = Inr snap"
    by (auto split: if_splits)
  have same: "states snap = states d" "alphabet snap = alphabet d"
    using set_transition_same [OF w] by simp_all
  from ok0 d(1) have f0: "filled d (state_index c0) (alphabet_index c0)"
    by (simp add: session_ok_def)
  have f1: "filled snap (state_index c0) (alphabet_index c0)"
    by (rule filled_set_transition [OF w f0])
  have new: "alphabet_index c0 < length (alphabet d) \<Longrightarrow>
      defined_at snap (states d ! state_index c0) (alphabet d ! alphabet_index c0)"
    using d(3,4,6) by (simp add: defined_atD nth_opt_def jskey_def)
  have f2: "filled snap (state_index c0) (alphabet_index c0 + 1)"
    unfolding filled_def
  proof (intro allI impI)
    fix i' j'
    assume b: "i' < length (states snap)" "j' < length (alphabet snap)"
      "i' < state_index c0 \<or> i' = state_index c0 \<and> j' < alphabet_index c0 + 1"
    show "defined_at snap (states snap ! i') (alphabet snap ! j')"
    proof (cases "i' = state_index c0 \<and> j' = alphabet_index c0")
      case True
      with b new same show ?thesis by simp
    next
      case False
      with b have "i' < state_index c0 \<or> i' = state_index c0 \<and> j' < alphabet_index c0"
        by auto
      with f1 b show ?thesis unfolding filled_def by blast
    qed
  qed
  from assms(1) c0 d(1) have "filled d (state_index c) (alphabet_index c)"
    by (simp add: session_ok_def adjust_indices_fields)
  then have f3: "filled snap (state_index c) (alphabet_index c)"
    by (rule filled_set_transition [OF w])
  from ok0 have "\<forall>e \<in> set (steps c0). entry_ok e"
    by (simp add: session_ok_def)
  with add(2,3) f2 f3 show ?thesis
    by (simp add: session_ok_def entry_ok_def)
next
  case (del c0 s rest row)
  have ok0: "session_ok c0"
    using session_ok_getNextStep [OF del(1)] assms(1) by (simp add: session_ok_adjust_indices)
  from getNextStep_result [OF del(1)] del(3) have "length (states snap) \<le> state_index c0"
    by auto
  with ok0 del(3) have a: "all_defined snap"
    by (rule session_ok_all_defined)
  then have "filled (removeState snap s) (state_index c0) (alphabet_index c0)"
    by (intro all_defined_filled all_defined_removeState)
  moreover from ok0 have "\<forall>e \<in> set (steps c0). entry_ok e"
    by (simp add: session_ok_def)
  ultimately show ?thesis
    using del(2,5) a by (simp add: session_ok_def entry_ok_def)
next
  case (merge c0 p rest)
  have ok0: "session_ok c0"
    using session_ok_getNextStep [OF merge(1)] assms(1) by (simp add: session_ok_adjust_indices)
  from getNextStep_result [OF merge(1)] merge(3) have "length (states snap) \<le> state_index c0"
    by auto
  with ok0 merge(3) have a: "all_defined snap"
    by (rule session_ok_all_defined)
  then have "filled (mergeStates snap (fst p) (snd p)) (state_index c0) (alphabet_index c0)"
    by (intro all_defined_filled all_defined_mergeStates)
  moreover from ok0 have "\<forall>e \<in> set (steps c0). entry_ok e"
    by (simp add: session_ok_def)
  ultimately show ?thesis
    using merge(2,5) a by (simp add: session_ok_def entry_ok_def)
qed

lemma stepForward_nothing:
  assumes "stepForward c = Inr (c', None)"
  shows "getNextStep (adjust_indices c) = Inr (c', None)"
  using assms initializeDFA_result addNextTransition_result deleteNextUnreachableState_result
    mergeNextRedundantStates_result
  by (fastforce simp: stepForward_unfold split: sum.splits option.splits step_kind.splits)

lemma session_ok_stepForward:
  assumes "session_ok c" and "stepForward c = Inr (c', r)"
  shows "session_ok c'"
proof (cases r)
  case None
  with assms(2) have "getNextStep (adjust_indices c) = Inr (c', None)"
    by (simp add: stepForward_nothing)
  moreover have "session_ok (adjust_indices c)"
    using assms(1) by (rule session_ok_adjust_indices)
  ultimately show ?thesis
    by (rule session_ok_getNextStep)
next
  case (Some e)
  with assms show ?thesis
    using session_ok_entry [of c c' "fst e" "snd e"] by simp
qed

lemma stepBackward_snoc:
  assumes "steps c = es @ [(snap, desc)]"
  shows "stepBackward c =
     (case desc of
        Initialize \<Rightarrow>
          Inr (c\<lparr>dfa := None, steps := [], state_index := 0, alphabet_index := 0,
                 unreachableStates := None\<rparr>, Some (snap, desc))
      | AddTransition f t s i j \<Rightarrow>
          Inr (c\<lparr>steps := es, state_index := i, alphabet_index := j, dfa := Some snap\<rparr>,
               Some (snap, desc))
      | DeleteState s r \<Rightarrow>
          (case unreachableStates c of
             None \<Rightarrow> Inl TypeError
           | Some q \<Rightarrow>
               Inr (c\<lparr>steps := es, unreachableStates := Some (s # q), dfa := Some snap\<rparr>,
                    Some (snap, desc)))
      | MergeStates p \<Rightarrow>
          (case redundantStates c of
             None \<Rightarrow> Inl TypeError
           | Some q \<Rightarrow>
               Inr (c\<lparr>steps := es, redundantStates := Some (p # q), dfa := Some snap\<rparr>,
                    Some (snap, desc))))"
  using assms by (simp add: stepBackward_def split: step.splits option.splits)

lemma session_ok_stepBackward:
  assumes "session_ok c" and "stepBackward c = Inr (c', r)"
  shows "session_ok c'"
proof (cases "steps c" rule: rev_cases)
  case Nil
  with assms show ?thesis by (simp add: stepBackward_def)
next
  case (snoc es e)
  obtain snap desc where e: "e = (snap, desc)" by (cases e)
  from assms(1) snoc e have ok: "entry_ok (snap, desc)" and oks: "\<forall>x \<in> set es. entry_ok x"
    by (simp_all add: session_ok_def)
  from snoc e have sb: "steps c = es @ [(snap, desc)]" by simp
  show ?thesis
  proof (cases desc)
    case Initialize
    with assms(2) stepBackward_snoc [OF sb] show ?thesis
      by (auto simp: session_ok_def)
  next
    case (AddTransition st to a i j)
    with ok have "filled snap i j" by (simp add: entry_ok_def)
    with assms(2) stepBackward_snoc [OF sb] AddTransition oks show ?thesis
      by (auto simp: session_ok_def)
  next
    case (DeleteState s row)
    with ok have "filled snap (state_index c) (alphabet_index c)"
      by (simp add: entry_ok_def all_defined_filled)
    with assms(2) stepBackward_snoc [OF sb] DeleteState oks show ?thesis
      by (auto simp: session_ok_def split: option.splits)
  next
    case (MergeStates p)
    with ok have "filled snap (state_index c) (alphabet_index c)"
      by (simp add: entry_ok_def all_defined_filled)
    with assms(2) stepBackward_snoc [OF sb] MergeStates oks show ?thesis
      by (auto simp: session_ok_def split: option.splits)
  qed
qed

lemma reachable_session_ok:
  assumes "reachable c"
  shows "session_ok c"
  using assms
proof (induction rule: reachable.induct)
  case (new n)
  show ?case by (simp add: session_ok_def new_NFAConverter_def)
next
  case (forward c c' r)
  then show ?case by (auto intro: session_ok_stepForward)
next
  case (backward c c' r)
  then show ?case by (auto intro: session_ok_stepBackward)
next
  case (query c c' k)
  then show ?case by (auto intro: session_ok_getNextStep)
qed


lemma incoming_symbols_total:
  assumes "\<forall>a \<in> set syms. defined_at d st a"
  shows "\<exists>inc. incoming_symbols d st syms acc = Inr inc"
  using assms
  by (induction syms arbitrary: acc) (auto simp: defined_atD Let_def)

lemma incoming_states_total:
  assumes "\<forall>st \<in> set sts. \<forall>a \<in> set (alphabet d). defined_at d st a"
  shows "\<exists>inc. incoming_states d sts acc = Inr inc"
  using assms
proof (induction sts arbitrary: acc)
  case Nil
  show ?case by simp
next
  case (Cons st sts)
  then obtain acc' where "incoming_symbols d st (alphabet d) acc = Inr acc'"
    using incoming_symbols_total [of "alphabet d" d st acc] by auto
  with Cons show ?case by simp
qed

lemma nodesWithIncomingEdges_total:
  assumes "all_defined d"
  shows "\<exists>inc. nodesWithIncomingEdges d = Inr inc"
  using assms incoming_states_total [of "states d" d "[]"]
  by (simp add: nodesWithIncomingEdges_def all_defined_def)

lemma all_defined_fold_removeState:
  assumes "all_defined d"
  shows "all_defined (fold (\<lambda>n d. removeState d n) ns d)"
  using assms by (induction ns arbitrary: d) (simp_all add: all_defined_removeState)

lemma getUnreachableStates_rec_total:
  assumes "all_defined d"
  shows "\<exists>q. getUnreachableStates_rec d l = Inr q"
  using assms
proof (induction d l rule: getUnreachableStates_rec.induct)
  case (1 tempDFA list)
  from nodesWithIncomingEdges_total [OF "1.prems"] obtain inc where
    inc: "nodesWithIncomingEdges tempDFA = Inr inc" by blast
  show ?case
  proof (cases "nodesWithoutIncomingEdges tempDFA inc = []")
    case True
    with inc show ?thesis
      by (subst getUnreachableStates_rec.simps) simp
  next
    case False
    have "all_defined (fold (\<lambda>n d. removeState d n) (nodesWithoutIncomingEdges tempDFA inc) tempDFA)"
      using "1.prems" by (rule all_defined_fold_removeState)
    from "1.IH" [OF inc False this] obtain q where
      "getUnreachableStates_rec
         (fold (\<lambda>n d. removeState d n) (nodesWithoutIncomingEdges tempDFA inc) tempDFA)
         (list @ nodesWithoutIncomingEdges tempDFA inc) = Inr q"
      by blast
    with inc False show ?thesis
      by (subst getUnreachableStates_rec.simps) simp
  qed
qed

lemma redundant_symbols_total:
  assumes "\<forall>a \<in> set syms. defined_at d s1 a \<and> defined_at d s2 a"
  shows "\<exists>b. redundant_symbols d s1 s2 syms r = Inr b"
  using assms
  by (induction syms arbitrary: r) (auto simp: defined_atD)

lemma scan_s2_total:
  assumes "all_defined d" and "s1 \<in> set (states d)" and "set ss \<subseteq> set (states d)"
  shows "\<exists>p. scan_s2 d s1 ss = Inr p"
  using assms(3)
proof (induction ss)
  case Nil
  show ?case by simp
next
  case (Cons s2 ss)
  with assms(1,2) have "\<forall>a \<in> set (alphabet d). defined_at d s1 a \<and> defined_at d s2 a"
    by (simp add: all_defined_def)
  then obtain b where "redundant_symbols d s1 s2 (alphabet d) True = Inr b"
    using redundant_symbols_total by blast
  with Cons show ?case by auto
qed

lemma scan_s1_total:
  assumes "all_defined d" and "set sts \<subseteq> set (states d)"
  shows "\<exists>p. scan_s1 d sts = Inr p"
  using assms(2)
proof (induction sts)
  case Nil
  show ?case by simp
next
  case (Cons s1 sts)
  then have "s1 \<in> set (states d)" by simp
  then obtain p where "scan_s2 d s1 (filter (\<lambda>e. e \<noteq> s1) (states d)) = Inr p"
    using scan_s2_total [OF assms(1), of s1 "filter (\<lambda>e. e \<noteq> s1) (states d)"] by auto
  with Cons show ?case by (cases p) auto
qed

lemma getRedundantStates_rec_total:
  assumes "all_defined d"
  shows "\<exists>q. getRedundantStates_rec d l = Inr q"
  using assms
proof (induction d l rule: getRedundantStates_rec.induct)
  case (1 tempDFA list)
  from scan_s1_total [OF "1.prems", of "states tempDFA"] obtain p where
    p: "scan_s1 tempDFA (states tempDFA) = Inr p" by auto
  show ?case
  proof (cases p)
    case None
    with p show ?thesis
      by (subst getRedundantStates_rec.simps) simp
  next
    case (Some pr)
    obtain s1 s2 where pr: "pr = (s1, s2)" by (cases pr)
    have "all_defined (mergeStates tempDFA s1 s2)"
      using "1.prems" by (rule all_defined_mergeStates)
    from "1.IH" [OF p Some pr [symmetric] this] obtain q where
      "getRedundantStates_rec (mergeStates tempDFA s1 s2) (list @ [(s1, s2)]) = Inr q"
      by blast
    with p Some pr show ?thesis
      by (subst getRedundantStates_rec.simps) simp
  qed
qed

lemma getNextStep_total:
  assumes "session_ok c"
  shows "\<exists>c' k. getNextStep c = Inr (c', k)"
proof (cases "dfa c")
  case None
  then show ?thesis by (simp add: getNextStep_def)
next
  case (Some d)
  show ?thesis
  proof (cases "state_index c < length (states d)")
    case True
    with Some show ?thesis by (simp add: getNextStep_def)
  next
    case False
    with assms Some have a: "all_defined d"
      by (intro session_ok_all_defined [of c d]) simp_all
    obtain u where u: "(case unreachableStates c of None \<Rightarrow> getUnreachableStates c
        | Some q \<Rightarrow> Inr q) = Inr u"
      using getUnreachableStates_rec_total [OF a, of "[]"] Some
      by (cases "unreachableStates c") (auto simp: getUnreachableStates_def clone_def)
    obtain r where r: "(case redundantStates c of
          None \<Rightarrow> getRedundantStates (c\<lparr>unreachableStates := Some u\<rparr>)
        | Some q \<Rightarrow> Inr q) = Inr r"
      using getRedundantStates_rec_total [OF a, of "[]"] Some
      by (cases "redundantStates c") (auto simp: getRedundantStates_def clone_def)
    from Some False u r show ?thesis
      by (simp add: getNextStep_def Let_def)
  qed
qed

text \<open>
  C10. In a session reached by the stepping protocol whose \<open>state_index\<close>, as adjusted at
  the start of \<open>stepForward\<close>, is past the last state of the working DFA (the only case in
  which \<open>getNextStep\<close> runs the searches), every entry \<open>transitions[state][symbol]\<close> of the
  working DFA is defined; both searches on it return without reading a property of
  \<open>undefined\<close>, on the working DFA and on every scratch copy they recurse on, and so does
  \<open>getNextStep\<close>, called by \<open>stepForward\<close> or directly.
\<close>

theorem searches_read_defined:
  assumes "reachable c" and "dfa c = Some d"
    and "length (states d) \<le> state_index (adjust_indices c)"
  shows "(\<forall>st \<in> set (states d). \<forall>a \<in> set (alphabet d).
            \<exists>v. get_transition d st a = Inr (Some v)) \<and>
         (\<exists>q. getUnreachableStates c = Inr q) \<and>
         (\<exists>q. getRedundantStates c = Inr q) \<and>
         (\<exists>c' k. getNextStep (adjust_indices c) = Inr (c', k)) \<and>
         (\<exists>c' k. getNextStep c = Inr (c', k))"
proof -
  have ok: "session_ok c"
    using assms(1) by (rule reachable_session_ok)
  then have ok': "session_ok (adjust_indices c)"
    by (rule session_ok_adjust_indices)
  with assms(2,3) have a: "all_defined d"
    by (intro session_ok_all_defined [of "adjust_indices c" d]) (simp_all add: adjust_indices_fields)
  then have "\<forall>st \<in> set (states d). \<forall>a \<in> set (alphabet d).
      \<exists>v. get_transition d st a = Inr (Some v)"
    by (simp add: all_defined_def defined_atD)
  moreover have "\<exists>q. getUnreachableStates c = Inr q"
    using getUnreachableStates_rec_total [OF a, of "[]"] assms(2)
    by (simp add: getUnreachableStates_def clone_def)
  moreover have "\<exists>q. getRedundantStates c = Inr q"
    using getRedundantStates_rec_total [OF a, of "[]"] assms(2)
    by (simp add: getRedundantStates_def clone_def)
  ultimately show ?thesis
    using getNextStep_total [OF ok] getNextStep_total [OF ok'] by simp
qed

lemma reachable_forward:
  assumes "reachable c" and "forward k c = Inr c'"
  shows "reachable c'"
  using assms
  by (induction k arbitrary: c) (auto split: sum.splits intro: reachable.forward)

lemma reachable_backward:
  assumes "reachable c" and "backward k c = Inr c'"
  shows "reachable c'"
  using assms
  by (induction k arbitrary: c) (auto split: sum.splits intro: reachable.backward)

lemma reachable_session_after: "reachable (session_after k n)"
  using reachable_forward [OF reachable.new, of k n]
  by (auto simp: session_after_def reachable.new split: sum.splits)

lemma reachable_session_back:
  assumes "reachable c"
  shows "reachable (session_back k c)"
  using reachable_backward [OF assms, of k] assms
  by (auto simp: session_back_def split: sum.splits)

text \<open>
  On the example NFA, after the initialization and the sixteen transitions of its eight
  DFA states.
\<close>

theorem searches_read_defined_witness:
  "(case dfa (session_after 17 nfa_example) of
      Some d \<Rightarrow>
        length (states d) = 8 \<and> state_index (adjust_indices (session_after 17 nfa_example)) = 8 \<and>
        (\<forall>st \<in> set (states d). \<forall>a \<in> set (alphabet d).
           \<exists>v. get_transition d st a = Inr (Some v))
    | None \<Rightarrow> False) \<and>
   (\<exists>q. getUnreachableStates (session_after 17 nfa_example) = Inr q) \<and>
   (\<exists>q. getRedundantStates (session_after 17 nfa_example) = Inr q) \<and>
   (\<exists>c' k. getNextStep (adjust_indices (session_after 17 nfa_example)) = Inr (c', k))"
proof -
  let ?X = "session_after 17 nfa_example"
  have "case dfa ?X of
          Some d \<Rightarrow> length (states d) = 8 \<and> state_index (adjust_indices ?X) = 8
        | None \<Rightarrow> False"
    by code_simp
  then obtain d where d: "dfa ?X = Some d" "length (states d) = 8"
    "state_index (adjust_indices ?X) = 8"
    by (auto split: option.splits)
  then have "length (states d) \<le> state_index (adjust_indices ?X)"
    by simp
  from searches_read_defined [OF reachable_session_after d(1) this] d
  show ?thesis by simp
qed

subsection \<open>The kind of the next step\<close>




subsection \<open>The unreachable-state search\<close>

lemma set_spread_set [simp]: "set (set_spread xs) = set xs"
  by (induction xs rule: set_spread.induct) auto

lemma set_spread_distinct [simp]: "distinct (set_spread xs)"
  by (induction xs rule: set_spread.induct) auto

lemma set_spread_id: "distinct xs \<Longrightarrow> set_spread xs = xs"
  by (induction xs) (simp_all add: removeAll_id)

lemma set_spread_append_left:
  "set_spread (set_spread xs @ ys) = set_spread (xs @ ys)"
proof (induction xs arbitrary: ys rule: set_spread.induct)
  case 1
  show ?case by simp
next
  case (2 x xs)
  have "removeAll x (set_spread (removeAll x xs)) = set_spread (removeAll x xs)"
    by (simp add: removeAll_id)
  with 2 [of "removeAll x ys"] show ?case by simp
qed

lemma set_spread_idem: "set_spread (set_spread xs) = set_spread xs"
  by (simp add: set_spread_id)

lemma fold_removeState_eq:
  "fold (\<lambda>n d. removeState d n) ns d =
     d\<lparr>states := filter (\<lambda>s. s \<notin> set ns) (states d),
       acceptStates := filter (\<lambda>s. s \<notin> set ns) (acceptStates d),
       transitions := filter (\<lambda>kv. fst kv \<notin> set ns) (transitions d)\<rparr>"
proof (induction ns arbitrary: d)
  case Nil
  show ?case by simp
next
  case (Cons n ns)
  have a: "filter (\<lambda>s. s \<notin> set ns) (removeAll n xs) = filter (\<lambda>s. s \<notin> set (n # ns)) xs"
    for xs :: "string list"
    by (induction xs) auto
  have b: "filter (\<lambda>kv. fst kv \<notin> set ns) (AList.delete n t)
      = filter (\<lambda>kv. fst kv \<notin> set (n # ns)) t"
    for t :: "(string \<times> row) list"
    by (induction t) (auto simp: AList.delete_eq)
  have "fold (\<lambda>n d. removeState d n) (n # ns) d
      = fold (\<lambda>n d. removeState d n) ns (removeState d n)"
    by simp
  also have "\<dots> = (removeState d n)
      \<lparr>states := filter (\<lambda>s. s \<notin> set ns) (states (removeState d n)),
       acceptStates := filter (\<lambda>s. s \<notin> set ns) (acceptStates (removeState d n)),
       transitions := filter (\<lambda>kv. fst kv \<notin> set ns) (transitions (removeState d n))\<rparr>"
    by (rule Cons)
  also have "\<dots> = d
      \<lparr>states := filter (\<lambda>s. s \<notin> set (n # ns)) (states d),
       acceptStates := filter (\<lambda>s. s \<notin> set (n # ns)) (acceptStates d),
       transitions := filter (\<lambda>kv. fst kv \<notin> set (n # ns)) (transitions d)\<rparr>"
    by (simp add: removeState_def a b del: set_simps)
  finally show ?case .
qed

lemma incoming_symbols_eq:
  assumes "incoming_symbols d st syms acc = Inr inc"
  shows "inc = acc @ concat (map (\<lambda>a. case get_transition d st a of
                         Inr (Some v) \<Rightarrow> if join_comma v = st then [] else [join_comma v]
                       | _ \<Rightarrow> []) syms)"
  using assms
proof (induction syms arbitrary: acc)
  case Nil
  then show ?case by simp
next
  case (Cons a syms)
  from Cons.prems obtain v where v: "get_transition d st a = Inr (Some v)"
    by (auto split: sum.splits option.splits)
  with Cons.prems have "incoming_symbols d st syms
      (if join_comma v \<noteq> st then acc @ [join_comma v] else acc) = Inr inc"
    by (simp add: Let_def)
  from Cons.IH [OF this] v show ?case
    by simp
qed

lemma incoming_states_eq:
  assumes "incoming_states d sts acc = Inr inc"
  shows "inc = acc @ concat (map (destinations_of d) sts)"
  using assms
proof (induction sts arbitrary: acc)
  case Nil
  then show ?case by simp
next
  case (Cons st sts)
  then obtain acc' where a: "incoming_symbols d st (alphabet d) acc = Inr acc'"
    and b: "incoming_states d sts acc' = Inr inc"
    by (auto split: sum.splits)
  from incoming_symbols_eq [OF a] Cons.IH [OF b] show ?case
    by (simp add: destinations_of_def)
qed

lemma nodesWithIncomingEdges_eq:
  assumes "nodesWithIncomingEdges d = Inr inc"
  shows "inc = destinations d" "nodesWithoutIncomingEdges d inc = unreachable_now d"
  using incoming_states_eq [of d "states d" "[]" inc] assms
  by (simp_all add: nodesWithIncomingEdges_def destinations_def
      nodesWithoutIncomingEdges_def unreachable_now_def)

lemma unreachable_now_subset: "set (unreachable_now d) \<subseteq> set (states d)"
  by (auto simp: unreachable_now_def)

lemma removed_states_shrink:
  assumes "unreachable_now d \<noteq> []"
  shows "length (states (fold (\<lambda>n d. removeState d n) (unreachable_now d) d)) < length (states d)"
proof -
  from assms obtain s where s: "s \<in> set (unreachable_now d)"
    by (cases "unreachable_now d") auto
  with unreachable_now_subset have "s \<in> set (states d)" by blast
  with s show ?thesis
    by (simp add: fold_removeState_eq length_filter_less)
qed

lemma getUnreachableStates_rec_rounds:
  assumes "getUnreachableStates_rec d l = Inr q" and "length (states d) \<le> n"
  shows "q = set_spread (l @ concat (unreachable_rounds n d))"
  using assms
proof (induction d l arbitrary: n q rule: getUnreachableStates_rec.induct)
  case (1 tempDFA list)
  from "1.prems"(1) obtain inc where inc: "nodesWithIncomingEdges tempDFA = Inr inc"
    by (subst (asm) getUnreachableStates_rec.simps) (auto split: sum.splits)
  note b = nodesWithIncomingEdges_eq(2) [OF inc]
  show ?case
  proof (cases "unreachable_now tempDFA = []")
    case True
    with "1.prems"(1) inc b have "q = set_spread list"
      by (subst (asm) getUnreachableStates_rec.simps) simp
    with True show ?thesis by (cases n) simp_all
  next
    case False
    let ?d' = "fold (\<lambda>n d. removeState d n) (unreachable_now tempDFA) tempDFA"
    from "1.prems"(1) inc b False obtain q' where
      q': "getUnreachableStates_rec ?d' (list @ unreachable_now tempDFA) = Inr q'"
      and q: "q = set_spread q'"
      by (subst (asm) getUnreachableStates_rec.simps) (auto split: sum.splits)
    from False unreachable_now_subset [of tempDFA] have "states tempDFA \<noteq> []"
      by auto
    with "1.prems"(2) obtain m where n: "n = Suc m"
      by (cases n) auto
    with removed_states_shrink [OF False] "1.prems"(2) have "length (states ?d') \<le> m"
      by simp
    from "1.IH" [OF inc, unfolded b, OF False q' this]
    have "q' = set_spread ((list @ unreachable_now tempDFA) @ concat (unreachable_rounds m ?d'))" .
    with q n False show ?thesis
      by (simp add: set_spread_idem)
  qed
qed

lemma unreachable_rounds_fixed_point:
  assumes "length (states d) \<le> n"
  shows "unreachable_now (fold (\<lambda>s d. removeState d s) (concat (unreachable_rounds n d)) d) = []"
  using assms
proof (induction n arbitrary: d)
  case 0
  then show ?case by (simp add: unreachable_now_def)
next
  case (Suc n)
  show ?case
  proof (cases "unreachable_now d = []")
    case True
    then show ?thesis by simp
  next
    case False
    with removed_states_shrink [OF False] Suc.prems Suc.IH show ?thesis
      by simp
  qed
qed

lemma unreachable_rounds_start:
  "startState d \<notin> set (concat (unreachable_rounds n d))"
proof (induction n arbitrary: d)
  case 0
  show ?case by simp
next
  case (Suc n)
  have "startState (fold (\<lambda>s d. removeState d s) ns d) = startState d" for ns
    by (simp add: fold_removeState_eq)
  with Suc [of "fold (\<lambda>s d. removeState d s) (unreachable_now d) d"] show ?case
    by (auto simp: unreachable_now_def)
qed

lemma unreachable_rounds_states:
  "set (concat (unreachable_rounds n d)) \<subseteq> set (states d)"
proof (induction n arbitrary: d)
  case 0
  show ?case by simp
next
  case (Suc n)
  with unreachable_now_subset [of d]
    Suc [of "fold (\<lambda>s d. removeState d s) (unreachable_now d) d"]
  show ?case
    by (auto simp: fold_removeState_eq)
qed

lemma unreachable_rounds_distinct:
  assumes "distinct (states d)"
  shows "distinct (concat (unreachable_rounds n d))"
  using assms
proof (induction n arbitrary: d)
  case 0
  show ?case by simp
next
  case (Suc n)
  let ?d' = "fold (\<lambda>s d. removeState d s) (unreachable_now d) d"
  have "distinct (states ?d')"
    using Suc.prems by (simp add: fold_removeState_eq)
  then have "distinct (concat (unreachable_rounds n ?d'))"
    by (rule Suc.IH)
  moreover have "distinct (unreachable_now d)"
    using Suc.prems by (simp add: unreachable_now_def)
  moreover have "set (concat (unreachable_rounds n ?d')) \<inter> set (unreachable_now d) = {}"
    using unreachable_rounds_states [of n ?d'] by (auto simp: fold_removeState_eq)
  ultimately show ?case
    by auto
qed

text \<open>
  C6. On a working DFA with every transition defined, the unreachable-state search
  returns the states of the rounds of the specification's wording, in the order the rounds
  find them and each once: the duplicates that \<open>set_spread\<close> removes can only come from a
  state sequence that repeats a label. The start state is never queued, every queued
  state is a state of the DFA, and the search stops at a fixed point: on the DFA without
  the queued states no state is unreachable. The search works on a copy: it returns the
  queue only.
\<close>

theorem unreachable_search_fixed_point:
  assumes "dfa c = Some d" and "all_defined d"
  shows "\<exists>q. getUnreachableStates c = Inr q \<and>
           q = set_spread (concat (unreachable_rounds (length (states d)) d)) \<and>
           distinct q \<and> startState d \<notin> set q \<and> set q \<subseteq> set (states d) \<and>
           unreachable_now (fold (\<lambda>s d. removeState d s) q d) = [] \<and>
           (distinct (states d) \<longrightarrow> q = concat (unreachable_rounds (length (states d)) d))"
proof -
  let ?r = "concat (unreachable_rounds (length (states d)) d)"
  from getUnreachableStates_rec_total [OF assms(2), of "[]"] obtain q where
    q: "getUnreachableStates_rec d [] = Inr q" by blast
  from getUnreachableStates_rec_rounds [OF q, of "length (states d)"]
  have eq: "q = set_spread ?r" by simp
  have "fold (\<lambda>s d. removeState d s) q d = fold (\<lambda>s d. removeState d s) ?r d"
    by (simp add: fold_removeState_eq eq)
  then have "unreachable_now (fold (\<lambda>s d. removeState d s) q d) = []"
    using unreachable_rounds_fixed_point [of d "length (states d)"] by simp
  moreover have "startState d \<notin> set q"
    using unreachable_rounds_start [of d "length (states d)"] by (simp add: eq)
  moreover have "set q \<subseteq> set (states d)"
    using unreachable_rounds_states [of "length (states d)" d] by (simp add: eq)
  moreover have "distinct (states d) \<longrightarrow> q = ?r"
    using unreachable_rounds_distinct [of d "length (states d)"] by (simp add: eq set_spread_id)
  ultimately show ?thesis
    using q eq assms(1) by (simp add: getUnreachableStates_def clone_def)
qed

text \<open>
  On the example NFA with all sixteen transitions added, the first round finds \<open>1\<close>, \<open>1,2\<close>
  and \<open>2,3\<close>, the second round \<open>2\<close>, which only \<open>1\<close> and \<open>1,2\<close> led to, and the third
  round nothing.
\<close>

theorem unreachable_search_fixed_point_witness:
  "getUnreachableStates (session_after 17 nfa_example) = Inr [''1'', ''1,2'', ''2,3'', ''2''] \<and>
   map_option (\<lambda>d. unreachable_rounds (length (states d)) d) (dfa (session_after 17 nfa_example))
     = Some [[''1'', ''1,2'', ''2,3''], [''2'']] \<and>
   map_option (\<lambda>d. unreachable_now
       (fold (\<lambda>s d. removeState d s) [''1'', ''1,2'', ''2,3'', ''2''] d))
     (dfa (session_after 17 nfa_example)) = Some []"
proof -
  let ?X = "session_after 17 nfa_example"
  have r: "map_option (\<lambda>d. unreachable_rounds (length (states d)) d) (dfa ?X)
      = Some [[''1'', ''1,2'', ''2,3''], [''2'']]"
    by code_simp
  have "case dfa ?X of Some d \<Rightarrow> all_defined d | None \<Rightarrow> False"
    by code_simp
  then obtain d where d: "dfa ?X = Some d" "all_defined d"
    by (auto split: option.splits)
  from r d have "concat (unreachable_rounds (length (states d)) d)
      = [''1'', ''1,2'', ''2,3'', ''2'']"
    by simp
  with unreachable_search_fixed_point [OF d] r d show ?thesis
    by auto
qed

subsection \<open>The redundant-pair search\<close>

lemma find_append_cases:
  "find P (xs @ ys) = (case find P xs of None \<Rightarrow> find P ys | Some x \<Rightarrow> Some x)"
  by (induction xs) auto

lemma redundant_symbols_eq:
  assumes "\<forall>a \<in> set syms. defined_at d s1 a \<and> defined_at d s2 a"
  shows "redundant_symbols d s1 s2 syms r =
     Inr (r \<and> (\<forall>a \<in> set syms.
        (target d s1 a = Some s1 \<or> target d s1 a = Some s2) \<and>
        (target d s2 a = Some s2 \<or> target d s2 a = Some s1)))"
  using assms
proof (induction syms arbitrary: r)
  case Nil
  show ?case by simp
next
  case (Cons a syms)
  from Cons.prems obtain t1 t2 where
    t: "get_transition d s1 a = Inr (Some t1)" "get_transition d s2 a = Inr (Some t2)"
    by (auto simp: defined_atD)
  from Cons.prems have "\<forall>a \<in> set syms. defined_at d s1 a \<and> defined_at d s2 a"
    by simp
  note ih = Cons.IH [OF this]
  from t show ?case
    by (auto simp: ih target_def)
qed

lemma scan_s2_eq:
  assumes "all_defined d" and "s1 \<in> set (states d)" and "set ss \<subseteq> set (states d)"
    and "s1 \<notin> set ss"
  shows "scan_s2 d s1 ss =
     Inr (find (\<lambda>p. redundant_pair d (fst p) (snd p)) (map (Pair s1) ss))"
  using assms(3,4)
proof (induction ss)
  case Nil
  show ?case by simp
next
  case (Cons s2 ss)
  with assms(1,2) have "\<forall>a \<in> set (alphabet d). defined_at d s1 a \<and> defined_at d s2 a"
    by (simp add: all_defined_def)
  note r = redundant_symbols_eq [OF this, of True]
  from Cons have ih: "scan_s2 d s1 ss =
     Inr (find (\<lambda>p. redundant_pair d (fst p) (snd p)) (map (Pair s1) ss))"
    and ne: "s1 \<noteq> s2"
    by auto
  show ?case
    using ne by (auto simp: r ih redundant_pair_def)
qed

lemma scan_s1_eq:
  assumes "all_defined d" and "set sts \<subseteq> set (states d)"
  shows "scan_s1 d sts =
     Inr (find (\<lambda>p. redundant_pair d (fst p) (snd p))
            (concat (map (\<lambda>s1. map (Pair s1) (filter (\<lambda>e. e \<noteq> s1) (states d))) sts)))"
  using assms(2)
proof (induction sts)
  case Nil
  show ?case by simp
next
  case (Cons s1 sts)
  then have "s1 \<in> set (states d)" by simp
  from scan_s2_eq [OF assms(1) this, of "filter (\<lambda>e. e \<noteq> s1) (states d)"]
  have "scan_s2 d s1 (filter (\<lambda>e. e \<noteq> s1) (states d)) =
     Inr (find (\<lambda>p. redundant_pair d (fst p) (snd p))
            (map (Pair s1) (filter (\<lambda>e. e \<noteq> s1) (states d))))"
    by auto
  with Cons show ?case
    by (simp add: find_append_cases split: option.splits)
qed

lemma scan_s1_first:
  assumes "all_defined d"
  shows "scan_s1 d (states d) = Inr (first_redundant_pair d)"
  using scan_s1_eq [OF assms, of "states d"]
  by (simp add: first_redundant_pair_def pairs_in_state_order_def)

lemma first_redundant_pair_states:
  assumes "first_redundant_pair d = Some (s1, s2)"
  shows "s1 \<in> set (states d)" "s2 \<in> set (states d)" "redundant_pair d s1 s2"
  using assms
  by (auto simp: first_redundant_pair_def pairs_in_state_order_def find_Some_iff
      dest!: nth_mem)

lemma getRedundantStates_rec_rounds:
  assumes "all_defined d" and "length (states d) \<le> n"
  shows "getRedundantStates_rec d l = Inr (l @ merge_rounds n d)"
  using assms
proof (induction d l arbitrary: n rule: getRedundantStates_rec.induct)
  case (1 tempDFA list)
  note s = scan_s1_first [OF "1.prems"(1)]
  show ?case
  proof (cases "first_redundant_pair tempDFA")
    case None
    with s show ?thesis
      by (subst getRedundantStates_rec.simps) (cases n; simp)
  next
    case (Some p)
    obtain s1 s2 where p: "p = (s1, s2)" by (cases p)
    from first_redundant_pair_states(2) [OF Some [unfolded p]]
    have mem: "s2 \<in> set (states tempDFA)" .
    then have "states tempDFA \<noteq> []" by auto
    with "1.prems"(2) obtain m where n: "n = Suc m"
      by (cases n) auto
    from mem have "length (states (mergeStates tempDFA s1 s2)) < length (states tempDFA)"
      by (simp add: mergeStates_def removeAll_filter_not_eq length_filter_less)
    with "1.prems"(2) n have len: "length (states (mergeStates tempDFA s1 s2)) \<le> m"
      by simp
    have "all_defined (mergeStates tempDFA s1 s2)"
      using "1.prems"(1) by (rule all_defined_mergeStates)
    from "1.IH" [OF s Some p [symmetric] this len]
    have "getRedundantStates_rec (mergeStates tempDFA s1 s2) (list @ [(s1, s2)])
        = Inr ((list @ [(s1, s2)]) @ merge_rounds m (mergeStates tempDFA s1 s2))" .
    with s Some p n show ?thesis
      by (subst getRedundantStates_rec.simps) simp
  qed
qed

text \<open>
  C7. On a working DFA with every transition defined, the check the search makes on two
  distinct states succeeds exactly when they are a redundant pair of the specification's
  wording, and the search returns the rounds of that wording: the first redundant pair in
  state order, then the first redundant pair of the automaton with that pair merged, and
  so on, in that order.
\<close>

theorem redundant_search_first_found:
  assumes "dfa c = Some d" and "all_defined d"
  shows "getRedundantStates c = Inr (merge_rounds (length (states d)) d) \<and>
         (\<forall>s1 \<in> set (states d). \<forall>s2 \<in> set (states d). s1 \<noteq> s2 \<longrightarrow>
            scan_s2 d s1 [s2] = Inr (if redundant_pair d s1 s2 then Some (s1, s2) else None))"
proof -
  have "scan_s2 d s1 [s2] = Inr (if redundant_pair d s1 s2 then Some (s1, s2) else None)"
    if "s1 \<in> set (states d)" "s2 \<in> set (states d)" "s1 \<noteq> s2" for s1 s2
    using scan_s2_eq [OF assms(2) that(1), of "[s2]"] that by simp
  then show ?thesis
    using getRedundantStates_rec_rounds [OF assms(2), of "length (states d)" "[]"] assms(1)
    by (simp add: getRedundantStates_def clone_def)
qed

text \<open>
  On \<open>nfa_dead\<close> with both transitions added, \<open>OSLASH\<close> and \<open>1\<close> are not accepting and both
  go to \<open>OSLASH\<close>: the first pair scanned is redundant, and after the merge one state is
  left.
\<close>

theorem redundant_search_first_found_witness:
  "getRedundantStates (session_after 3 nfa_dead) = Inr [(OSLASH, ''1'')] \<and>
   map_option (\<lambda>d. (pairs_in_state_order d, redundant_pair d OSLASH ''1''))
     (dfa (session_after 3 nfa_dead)) = Some ([(OSLASH, ''1''), (''1'', OSLASH)], True) \<and>
   map_option (\<lambda>d. scan_s2 d OSLASH [''1'']) (dfa (session_after 3 nfa_dead))
     = Some (Inr (Some (OSLASH, ''1'')))"
proof -
  let ?X = "session_after 3 nfa_dead"
  have "case dfa ?X of
          Some d \<Rightarrow> all_defined d \<and> OSLASH \<in> set (states d) \<and> ''1'' \<in> set (states d) \<and>
            merge_rounds (length (states d)) d = [(OSLASH, ''1'')] \<and>
            pairs_in_state_order d = [(OSLASH, ''1''), (''1'', OSLASH)] \<and>
            redundant_pair d OSLASH ''1''
        | None \<Rightarrow> False"
    by code_simp
  then obtain d where d: "dfa ?X = Some d" "all_defined d"
    and m: "OSLASH \<in> set (states d)" "''1'' \<in> set (states d)"
      "merge_rounds (length (states d)) d = [(OSLASH, ''1'')]"
      "pairs_in_state_order d = [(OSLASH, ''1''), (''1'', OSLASH)]"
      "redundant_pair d OSLASH ''1''"
    by (auto split: option.splits)
  have "OSLASH \<noteq> ''1''"
    by (simp add: OSLASH_def)
  with redundant_search_first_found [OF d] d m show ?thesis
    by auto
qed

end
